theory Spec2Isabelle
  imports Main "HOL-Library.AList"
begin

section \<open>Strings and the pieces of the JavaScript library the program uses\<close>

text \<open>
  A JavaScript string is a sequence of code units. File names are modelled as
  \<^typ>\<open>string\<close>; a \<^typ>\<open>char\<close> stands for the code unit with the same number, so the
  model covers file names whose code units are below 256.
\<close>

definition is_digit :: "char \<Rightarrow> bool" where
  \<comment> \<open>the regular expression class \<open>\d\<close>: the ten ASCII digits\<close>
  "is_digit c = (c \<in> set ''0123456789'')"

definition is_space :: "char \<Rightarrow> bool" where
  \<comment> \<open>the class \<open>\s\<close>, which is also what \<open>trim\<close> removes: tab, line feed, vertical tab,
      form feed, carriage return, space, no-break space\<close>
  "is_space c = (c \<in> {CHR 0x09, CHR 0x0A, CHR 0x0B, CHR 0x0C, CHR 0x0D, CHR 0x20, CHR 0xA0})"

fun str_split :: "char \<Rightarrow> string \<Rightarrow> string list" where
  \<comment> \<open>\<open>s.split(sep)\<close> for a one-character separator: always at least one piece\<close>
  "str_split sep [] = [[]]"
| "str_split sep (c # cs) =
     (if c = sep then [] # str_split sep cs
      else (case str_split sep cs of
              [] \<Rightarrow> [[c]]
            | p # ps \<Rightarrow> (c # p) # ps))"

fun str_join :: "string \<Rightarrow> string list \<Rightarrow> string" where
  \<comment> \<open>\<open>parts.join(sep)\<close>\<close>
  "str_join sep [] = []"
| "str_join sep [p] = p"
| "str_join sep (p # q # ps) = p @ sep @ str_join sep (q # ps)"

definition slice_0_minus1 :: "'a list \<Rightarrow> 'a list" where
  \<comment> \<open>\<open>xs.slice(0, -1)\<close>: all but the last element, empty for an empty array\<close>
  "slice_0_minus1 xs = take (length xs - 1) xs"

definition str_trim :: "string \<Rightarrow> string" where
  \<comment> \<open>\<open>s.trim()\<close>\<close>
  "str_trim s = rev (dropWhile is_space (rev (dropWhile is_space s)))"

fun replace_at_end :: "(string \<Rightarrow> bool) \<Rightarrow> string \<Rightarrow> string" where
  \<comment> \<open>\<open>s.replace(re, '')\<close> for a regular expression \<open>re\<close> that ends in \<open>$\<close> and has no
      \<open>g\<close> flag: the leftmost position from which the rest of the string matches is
      found, and the match (the whole rest) is removed. \<open>here t\<close> says that the rest
      \<open>t\<close> matches from its first character to its end.\<close>
  "replace_at_end here [] = []"
| "replace_at_end here (c # cs) =
     (if here (c # cs) then [] else c # replace_at_end here cs)"

section \<open>getSkuFromFilename\<close>

definition sku_here :: "string \<Rightarrow> bool" where
  \<comment> \<open>\<open>/(\d{6}-\d{5}-\d{3})/\<close> matches at the first character of the string\<close>
  "sku_here s =
     (16 \<le> length s
      \<and> list_all is_digit (take 6 s) \<and> s ! 6 = CHR ''-''
      \<and> list_all is_digit (take 5 (drop 7 s)) \<and> s ! 12 = CHR ''-''
      \<and> list_all is_digit (take 3 (drop 13 s)))"

fun match_sku :: "string \<Rightarrow> string option" where
  \<comment> \<open>\<open>filename.match(skuRegex)\<close>: the capture group of the leftmost match, or
      \<open>None\<close> for \<open>null\<close>\<close>
  "match_sku [] = None"
| "match_sku (c # cs) =
     (if sku_here (c # cs) then Some (take 16 (c # cs)) else match_sku cs)"

definition paren_suffix_here :: "string \<Rightarrow> bool" where
  \<comment> \<open>the rest of the string matches \<open>\s*\([^)]*\)\<close> up to its end\<close>
  "paren_suffix_here t =
     (case dropWhile is_space t of
        [] \<Rightarrow> False
      | c # r \<Rightarrow> c = CHR ''('' \<and> r \<noteq> [] \<and> last r = CHR '')''
                 \<and> CHR '')'' \<notin> set (butlast r))"

definition num_suffix_here :: "string \<Rightarrow> bool" where
  \<comment> \<open>the rest of the string matches \<open>[-_]\d+\<close> or \<open>[-_]\<close> up to its end\<close>
  "num_suffix_here t =
     (case t of
        [] \<Rightarrow> False
      | c # ds \<Rightarrow> (c = CHR ''-'' \<or> c = CHR ''_'')
                  \<and> ((ds \<noteq> [] \<and> list_all is_digit ds) \<or> ds = []))"

definition strip_once :: "string \<Rightarrow> string" where
  \<comment> \<open>\<open>name.replace(/[-_]\d+$|[-_]$/, '')\<close>\<close>
  "strip_once name = replace_at_end num_suffix_here name"

function strip_loop :: "string \<Rightarrow> string" where
  \<comment> \<open>the \<open>do ... while (name !== previousName && name.length > 0)\<close> loop\<close>
  "strip_loop previousName =
     (let name = strip_once previousName
      in if name \<noteq> previousName \<and> 0 < length name then strip_loop name else name)"
  by pat_completeness auto
termination
proof (relation "measure length")
  show "wf (measure length)" by simp
next
  fix previousName name :: string
  assume n: "name = strip_once previousName"
    and c: "name \<noteq> previousName \<and> 0 < length name"
  have pre: "\<exists>t. s = replace_at_end here s @ t" for here and s :: string
    by (induction s) auto
  from pre [of previousName num_suffix_here] n
  obtain t where t: "previousName = name @ t"
    by (auto simp: strip_once_def)
  with c have "t \<noteq> []" by auto
  with t have "length name < length previousName" by auto
  then show "(name, previousName) \<in> measure length" by simp
qed

declare strip_loop.simps [simp del]

fun strip_loop_fuel :: "nat \<Rightarrow> string \<Rightarrow> string option" where
  \<comment> \<open>the same loop with a budget of iterations: \<open>None\<close> when the budget runs out\<close>
  "strip_loop_fuel 0 previousName = None"
| "strip_loop_fuel (Suc k) previousName =
     (let name = strip_once previousName
      in if name \<noteq> previousName \<and> 0 < length name then strip_loop_fuel k name
         else Some name)"

definition extension_stripped :: "string \<Rightarrow> string" where
  \<comment> \<open>\<open>filename.split('.').slice(0, -1).join('.').trim()\<close>\<close>
  "extension_stripped filename =
     str_trim (str_join ''.'' (slice_0_minus1 (str_split CHR ''.'' filename)))"

definition getSkuFromFilename :: "string \<Rightarrow> string" where
  \<comment> \<open>\<open>match && match[1]\<close> holds for every match: the capture group is the whole match,
      sixteen characters long. \<open>name || ...\<close> takes the second operand when \<open>name\<close> is
      empty.\<close>
  "getSkuFromFilename filename =
     (case match_sku filename of
        Some m \<Rightarrow> m
      | None \<Rightarrow>
          (let name = extension_stripped filename;
               name = replace_at_end paren_suffix_here name;
               name = strip_loop name
           in if name \<noteq> [] then name else extension_stripped filename))"

section \<open>The data model\<close>

datatype exn = TypeError
  \<comment> \<open>what reading a property of \<open>undefined\<close> throws\<close>

record jsfile =
  file_name :: string
  file_blob :: nat  \<comment> \<open>the binary content, by identity\<close>

record OrganizedImage =
  img_id :: string
  img_file :: jsfile
  img_url :: string
  img_prefix :: "string option"  \<comment> \<open>\<open>prefix?: string\<close>, \<open>None\<close> for \<open>undefined\<close>\<close>

text \<open>
  The type \<open>OrganizedImage[]\<close> is not enforced when the program runs: \<open>splice\<close> can hand
  out \<open>undefined\<close>, which \<open>handleDropReorder\<close> then stores. An array element is
  therefore an \<^typ>\<open>OrganizedImage option\<close>, with \<open>None\<close> for \<open>undefined\<close>.
\<close>

type_synonym image_group = "OrganizedImage option list"

text \<open>
  A JavaScript \<open>Map\<close> keeps its keys in insertion order: \<open>set\<close> on a key that is
  present replaces the value where it stands, on a new key it adds the entry at the end.
\<close>

type_synonym image_map = "(string \<times> image_group) list"

definition Map_get :: "'k \<Rightarrow> ('k \<times> 'v) list \<Rightarrow> 'v option" where
  "Map_get k m = map_of m k"

definition Map_has :: "'k \<Rightarrow> ('k \<times> 'v) list \<Rightarrow> bool" where
  "Map_has k m = (map_of m k \<noteq> None)"

definition Map_set :: "'k \<Rightarrow> 'v \<Rightarrow> ('k \<times> 'v) list \<Rightarrow> ('k \<times> 'v) list" where
  "Map_set k v m = AList.update k v m"

definition Map_delete :: "'k \<Rightarrow> ('k \<times> 'v) list \<Rightarrow> ('k \<times> 'v) list" where
  "Map_delete k m = AList.delete k m"

definition get_or_empty :: "'k \<Rightarrow> ('k \<times> 'v list) list \<Rightarrow> 'v list" where
  \<comment> \<open>\<open>m.get(k) || []\<close>: an array, even an empty one, is truthy\<close>
  "get_or_empty k m = (case Map_get k m of None \<Rightarrow> [] | Some g \<Rightarrow> g)"

definition array_at :: "'a option list \<Rightarrow> nat \<Rightarrow> 'a option" where
  \<comment> \<open>\<open>xs[i]\<close>: \<open>undefined\<close> past the end\<close>
  "array_at xs i = (if i < length xs then xs ! i else None)"

definition splice_out :: "nat \<Rightarrow> 'a list \<Rightarrow> 'a list" where
  \<comment> \<open>the array after \<open>xs.splice(i, 1)\<close>; nothing is removed past the end\<close>
  "splice_out i xs = take i xs @ drop (Suc i) xs"

definition splice_in :: "nat \<Rightarrow> 'a \<Rightarrow> 'a list \<Rightarrow> 'a list" where
  \<comment> \<open>the array after \<open>xs.splice(i, 0, x)\<close>; past the end the element is appended\<close>
  "splice_in i x xs = take i xs @ x # drop i xs"

text \<open>
  The state of the component: the \<open>useState\<close> cells the handlers read and write, and
  \<open>revoked\<close>, the URLs handed to \<open>URL.revokeObjectURL\<close> so far. Array positions come
  from the renderer and are natural numbers. A handler that can throw returns
  \<^typ>\<open>exn + 'a\<close>; the thrown branch does not record the state. The cells that only the
  rendering reads (theme, thumbnail width, lightbox, the import helper and the import
  flag) are left out, and so are the calls on the event object and the document.
\<close>

record app =
  files :: "jsfile list"
  organizedImages :: image_map
  isLoading :: bool
  isZippingAll :: bool
  zippingFolder :: "string option"
  error :: "string option"
  draggedItem :: "(string \<times> nat) option"
  filenamePrefix :: string
  editingSku :: "string option"
  draggedGroupSku :: "string option"
  revoked :: "string list"


section \<open>Releasing previews and organizing\<close>

fun group_urls :: "image_group \<Rightarrow> exn + string list" where
  \<comment> \<open>\<open>imageGroup.forEach(img => URL.revokeObjectURL(img.url))\<close>: the URLs revoked, in
      order\<close>
  "group_urls [] = Inr []"
| "group_urls (None # rest) = Inl TypeError"
| "group_urls (Some img # rest) =
     (case group_urls rest of Inl e \<Rightarrow> Inl e | Inr us \<Rightarrow> Inr (img_url img # us))"

fun map_urls :: "image_map \<Rightarrow> exn + string list" where
  \<comment> \<open>\<open>organizedImages.forEach(imageGroup => ...)\<close>\<close>
  "map_urls [] = Inr []"
| "map_urls ((sku, imageGroup) # rest) =
     (case group_urls imageGroup of
        Inl e \<Rightarrow> Inl e
      | Inr us \<Rightarrow> (case map_urls rest of Inl e \<Rightarrow> Inl e | Inr vs \<Rightarrow> Inr (us @ vs)))"

definition clearOrganizedImages :: "app \<Rightarrow> exn + app" where
  "clearOrganizedImages st =
     (case map_urls (organizedImages st) of
        Inl e \<Rightarrow> Inl e
      | Inr us \<Rightarrow> Inr (st\<lparr>revoked := revoked st @ us, organizedImages := []\<rparr>))"

definition groupName :: "string \<Rightarrow> string" where
  \<comment> \<open>\<open>sku || 'Unidentified'\<close>: the empty string is falsy\<close>
  "groupName sku = (if sku \<noteq> [] then sku else ''Unidentified'')"

definition add_file ::
  "(nat \<Rightarrow> string) \<Rightarrow> (nat \<Rightarrow> string) \<Rightarrow> image_map \<Rightarrow> nat \<times> jsfile \<Rightarrow> image_map" where
  \<comment> \<open>the body of \<open>files.forEach\<close> in \<open>organizeImages\<close>, for the file at position \<open>k\<close>;
      \<open>randomUUID k\<close> and \<open>createObjectURL k\<close> are what the k-th calls of
      \<open>crypto.randomUUID()\<close> and \<open>URL.createObjectURL(file)\<close> return\<close>
  "add_file randomUUID createObjectURL newOrganizedImages kf =
     (let file = snd kf;
          sku = getSkuFromFilename (file_name file);
          existing = get_or_empty (groupName sku) newOrganizedImages
      in Map_set (groupName sku)
           (existing @ [Some \<lparr>img_id = randomUUID (fst kf), img_file = file,
                               img_url = createObjectURL (fst kf), img_prefix = None\<rparr>])
           newOrganizedImages)"

definition organize_files ::
  "(nat \<Rightarrow> string) \<Rightarrow> (nat \<Rightarrow> string) \<Rightarrow> jsfile list \<Rightarrow> image_map" where
  "organize_files randomUUID createObjectURL fs =
     foldl (add_file randomUUID createObjectURL) [] (enumerate 0 fs)"

definition organizeImages :: "(nat \<Rightarrow> string) \<Rightarrow> (nat \<Rightarrow> string) \<Rightarrow> app \<Rightarrow> exn + app" where
  \<comment> \<open>the click handler followed by its timer callback, with no other event in between\<close>
  "organizeImages randomUUID createObjectURL st =
     (if length (files st) = 0
      then Inr (st\<lparr>error := Some ''Please select some images first.''\<rparr>)
      else (case clearOrganizedImages (st\<lparr>isLoading := True, error := None\<rparr>) of
              Inl e \<Rightarrow> Inl e
            | Inr st1 \<Rightarrow>
                Inr (st1\<lparr>organizedImages :=
                            organize_files randomUUID createObjectURL (files st),
                          isLoading := False\<rparr>)))"

section \<open>The handlers that edit the groups\<close>

definition handleDuplicateImage :: "string \<Rightarrow> nat \<Rightarrow> string \<Rightarrow> app \<Rightarrow> app" where
  \<comment> \<open>\<open>uuid\<close> is what \<open>crypto.randomUUID()\<close> returns\<close>
  "handleDuplicateImage sku index uuid st =
     (let prev = organizedImages st
      in case Map_get sku prev of
           None \<Rightarrow> st
         | Some imageGroup \<Rightarrow>
             (case array_at imageGroup index of
                None \<Rightarrow> st
              | Some originalImage \<Rightarrow>
                  (let duplicatedImage = originalImage\<lparr>img_id := uuid\<rparr>;
                       newImageGroup = splice_in (index + 1) (Some duplicatedImage) imageGroup
                   in st\<lparr>organizedImages := Map_set sku newImageGroup prev\<rparr>)))"

fun find_id :: "string \<Rightarrow> image_group \<Rightarrow> exn + OrganizedImage option" where
  \<comment> \<open>\<open>imageGroup.find(img => img.id === imageId)\<close>\<close>
  "find_id imageId [] = Inr None"
| "find_id imageId (None # rest) = Inl TypeError"
| "find_id imageId (Some img # rest) =
     (if img_id img = imageId then Inr (Some img) else find_id imageId rest)"

fun filter_not_id :: "string \<Rightarrow> image_group \<Rightarrow> exn + image_group" where
  \<comment> \<open>\<open>imageGroup.filter(img => img.id !== imageId)\<close>\<close>
  "filter_not_id imageId [] = Inr []"
| "filter_not_id imageId (None # rest) = Inl TypeError"
| "filter_not_id imageId (Some img # rest) =
     (case filter_not_id imageId rest of
        Inl e \<Rightarrow> Inl e
      | Inr ys \<Rightarrow> Inr (if img_id img \<noteq> imageId then Some img # ys else ys))"

definition handleDeleteImage :: "string \<Rightarrow> string \<Rightarrow> app \<Rightarrow> exn + app" where
  "handleDeleteImage sku imageId st =
     (let prev = organizedImages st
      in case Map_get sku prev of
           None \<Rightarrow> Inr st
         | Some imageGroup \<Rightarrow>
             (case find_id imageId imageGroup of
                Inl e \<Rightarrow> Inl e
              | Inr imageToDelete \<Rightarrow>
                  (let st1 = (case imageToDelete of
                                None \<Rightarrow> st
                              | Some img \<Rightarrow> st\<lparr>revoked := revoked st @ [img_url img]\<rparr>)
                   in case filter_not_id imageId imageGroup of
                        Inl e \<Rightarrow> Inl e
                      | Inr newImageGroup \<Rightarrow>
                          (if 0 < length newImageGroup
                           then Inr (st1\<lparr>organizedImages := Map_set sku newImageGroup prev\<rparr>)
                           else Inr (st1\<lparr>organizedImages := Map_delete sku prev\<rparr>)))))"

definition handleDeleteGroup :: "bool \<Rightarrow> string \<Rightarrow> app \<Rightarrow> exn + app" where
  \<comment> \<open>\<open>confirmed\<close> is the answer of \<open>window.confirm\<close>\<close>
  "handleDeleteGroup confirmed sku st =
     (if confirmed
      then (let prev = organizedImages st
            in case Map_get sku prev of
                 None \<Rightarrow> Inr (st\<lparr>organizedImages := Map_delete sku prev\<rparr>)
               | Some groupToDelete \<Rightarrow>
                   (case group_urls groupToDelete of
                      Inl e \<Rightarrow> Inl e
                    | Inr us \<Rightarrow>
                        Inr (st\<lparr>revoked := revoked st @ us,
                                organizedImages := Map_delete sku prev\<rparr>)))
      else Inr st)"

definition handleSkuChange :: "string \<Rightarrow> string \<Rightarrow> app \<Rightarrow> app" where
  "handleSkuChange oldSku newSku st =
     (if newSku = [] \<or> oldSku = newSku
      then st\<lparr>editingSku := None\<rparr>
      else (let prev = organizedImages st;
                images = get_or_empty oldSku prev;
                newMap = Map_delete oldSku prev;
                newMap = (if Map_has newSku newMap
                          then (let existingImages = get_or_empty newSku newMap
                                in Map_set newSku (existingImages @ images) newMap)
                          else Map_set newSku images newMap)
            in st\<lparr>organizedImages := newMap, editingSku := None\<rparr>))"

fun set_prefix :: "string \<Rightarrow> string \<Rightarrow> image_group \<Rightarrow> exn + image_group" where
  \<comment> \<open>\<open>imageGroup.map(img => img.id === imageId ? { ...img, prefix: newPrefix } : img)\<close>\<close>
  "set_prefix imageId newPrefix [] = Inr []"
| "set_prefix imageId newPrefix (None # rest) = Inl TypeError"
| "set_prefix imageId newPrefix (Some img # rest) =
     (case set_prefix imageId newPrefix rest of
        Inl e \<Rightarrow> Inl e
      | Inr ys \<Rightarrow>
          Inr (Some (if img_id img = imageId then img\<lparr>img_prefix := Some newPrefix\<rparr> else img)
               # ys))"

definition handleImagePrefixChange :: "string \<Rightarrow> string \<Rightarrow> string \<Rightarrow> app \<Rightarrow> exn + app" where
  "handleImagePrefixChange sku imageId newPrefix st =
     (let prev = organizedImages st
      in case Map_get sku prev of
           None \<Rightarrow> Inr st
         | Some imageGroup \<Rightarrow>
             (case set_prefix imageId newPrefix imageGroup of
                Inl e \<Rightarrow> Inl e
              | Inr newImageGroup \<Rightarrow>
                  Inr (st\<lparr>organizedImages := Map_set sku newImageGroup prev\<rparr>)))"

definition handleDropReorder :: "string \<Rightarrow> nat \<Rightarrow> app \<Rightarrow> app" where
  "handleDropReorder targetGroup targetIndex st =
     (case draggedItem st of
        None \<Rightarrow> st
      | Some (sourceGroup, sourceIndex) \<Rightarrow>
          (let prev = organizedImages st;
               removed = array_at (get_or_empty sourceGroup prev) sourceIndex;
               sourceImageGroup = splice_out sourceIndex (get_or_empty sourceGroup prev)
           in if sourceGroup = targetGroup
              then st\<lparr>organizedImages :=
                        Map_set sourceGroup (splice_in targetIndex removed sourceImageGroup) prev\<rparr>
              else (let targetImageGroup =
                          splice_in targetIndex removed (get_or_empty targetGroup prev);
                        newMap = Map_set targetGroup targetImageGroup prev
                    in if length sourceImageGroup = 0
                       then st\<lparr>organizedImages := Map_delete sourceGroup newMap\<rparr>
                       else st\<lparr>organizedImages :=
                                 Map_set sourceGroup sourceImageGroup newMap\<rparr>)))"

definition handleGroupDrop :: "string \<Rightarrow> app \<Rightarrow> app" where
  "handleGroupDrop targetSku st =
     (case draggedGroupSku st of
        None \<Rightarrow> st
      | Some dragged \<Rightarrow>
          (if dragged = [] \<or> dragged = targetSku then st
           else (let prev = organizedImages st;
                     sourceImages = get_or_empty dragged prev;
                     targetImages = get_or_empty targetSku prev;
                     newMap = Map_set targetSku (targetImages @ sourceImages) prev
                 in st\<lparr>organizedImages := Map_delete dragged newMap,
                        draggedGroupSku := None\<rparr>)))"

section \<open>The names of the exported files\<close>

fun decimal :: "nat \<Rightarrow> string" where
  \<comment> \<open>a number in a template literal\<close>
  "decimal n =
     (if n < 10 then [''0123456789'' ! n]
      else decimal (n div 10) @ [''0123456789'' ! (n mod 10)])"

declare decimal.simps [simp del]






section \<open>What the properties are stated with\<close>

definition no_undefined :: "image_map \<Rightarrow> bool" where
  \<comment> \<open>the map is what its TypeScript type says: no array holds \<open>undefined\<close>\<close>
  "no_undefined m = list_all (\<lambda>kg. list_all (\<lambda>x. x \<noteq> None) (snd kg)) m"

definition no_empty_group :: "image_map \<Rightarrow> bool" where
  \<comment> \<open>every key of the map has at least one item\<close>
  "no_empty_group m = list_all (\<lambda>kg. snd kg \<noteq> []) m"

definition group_contents :: "image_map \<Rightarrow> (string \<times> jsfile option list) list" where
  \<comment> \<open>the keys in order, each with the payloads of its items in order: the groups up to
      the identity of the items (their ids and preview URLs)\<close>
  "group_contents m = map (\<lambda>kg. (fst kg, map (map_option img_file) (snd kg))) m"

definition sample_uuid :: "nat \<Rightarrow> string" where
  \<comment> \<open>one possible run of \<open>crypto.randomUUID\<close>, for the concrete instances below\<close>
  "sample_uuid k = ''uuid-'' @ decimal k"

definition sample_url :: "nat \<Rightarrow> string" where
  \<comment> \<open>one possible run of \<open>URL.createObjectURL\<close>, for the concrete instances below\<close>
  "sample_url k = ''blob:'' @ decimal k"

definition initial_app :: app where
  \<comment> \<open>the state of the component when it is mounted\<close>
  "initial_app =
     \<lparr>files = [], organizedImages = [], isLoading = False, isZippingAll = False,
      zippingFolder = None, error = None, draggedItem = None, filenamePrefix = ''eci'',
      editingSku = None, draggedGroupSku = None, revoked = []\<rparr>"

definition scenario_files :: "jsfile list" where
  \<comment> \<open>a batch of three files, for the concrete instances below\<close>
  "scenario_files =
     [\<lparr>file_name = ''sku-123456-78901-234 front.jpg'', file_blob = 0\<rparr>,
      \<lparr>file_name = ''sku-123456-78901-234 back.jpg'', file_blob = 1\<rparr>,
      \<lparr>file_name = ''random.png'', file_blob = 2\<rparr>]"

definition img_a :: OrganizedImage where
  \<comment> \<open>two items and a store with one group for each, for the concrete instances below\<close>
  "img_a = \<lparr>img_id = ''id-a'', img_file = \<lparr>file_name = ''a.jpg'', file_blob = 0\<rparr>,
            img_url = ''blob:a'', img_prefix = None\<rparr>"

definition img_b :: OrganizedImage where
  "img_b = \<lparr>img_id = ''id-b'', img_file = \<lparr>file_name = ''b.jpg'', file_blob = 1\<rparr>,
            img_url = ''blob:b'', img_prefix = None\<rparr>"

definition two_groups :: app where
  "two_groups = initial_app\<lparr>organizedImages := [(''a'', [Some img_a]), (''b'', [Some img_b])]\<rparr>"


section \<open>Properties of getSkuFromFilename\<close>

subsection \<open>The structured code\<close>


lemma match_sku_leftmost:
  "sku_here (drop k f) \<Longrightarrow>
   \<exists>j\<le>k. match_sku f = Some (take 16 (drop j f)) \<and> sku_here (drop j f)
          \<and> (\<forall>i<j. \<not> sku_here (drop i f))"
proof (induction f arbitrary: k)
  case Nil
  then show ?case by (simp add: sku_here_def)
next
  case (Cons c cs)
  show ?case
  proof (cases "sku_here (c # cs)")
    case True
    then have "match_sku (c # cs) = Some (take 16 (drop 0 (c # cs)))
        \<and> sku_here (drop 0 (c # cs)) \<and> (\<forall>i<0. \<not> sku_here (drop i (c # cs)))"
      by simp
    then show ?thesis by blast
  next
    case False
    with Cons.prems obtain k' where k: "k = Suc k'"
      by (cases k) auto
    with Cons.prems have "sku_here (drop k' cs)" by simp
    from Cons.IH [OF this] obtain j where j: "j \<le> k'"
      "match_sku cs = Some (take 16 (drop j cs))"
      "sku_here (drop j cs)" "\<forall>i<j. \<not> sku_here (drop i cs)"
      by blast
    have "\<forall>i<Suc j. \<not> sku_here (drop i (c # cs))"
    proof (intro allI impI)
      fix i assume "i < Suc j"
      then show "\<not> sku_here (drop i (c # cs))"
        using False j(4) by (cases i) auto
    qed
    with j False k
    have "Suc j \<le> k \<and> match_sku (c # cs) = Some (take 16 (drop (Suc j) (c # cs)))
        \<and> sku_here (drop (Suc j) (c # cs)) \<and> (\<forall>i<Suc j. \<not> sku_here (drop i (c # cs)))"
      by simp
    then show ?thesis by blast
  qed
qed

lemma match_sku_None: "match_sku f = None \<Longrightarrow> \<not> sku_here (drop k f)"
  using match_sku_leftmost [of k f] by auto

lemma match_sku_None_iff: "match_sku f = None \<longleftrightarrow> (\<forall>j. \<not> sku_here (drop j f))"
proof
  assume "match_sku f = None"
  then show "\<forall>j. \<not> sku_here (drop j f)" by (simp add: match_sku_None)
next
  assume a: "\<forall>j. \<not> sku_here (drop j f)"
  have "(\<forall>j. \<not> sku_here (drop j g)) \<Longrightarrow> match_sku g = None" for g
  proof (induction g)
    case Nil
    then show ?case by simp
  next
    case (Cons x g)
    from Cons.prems have "\<not> sku_here (drop 0 (x # g))" by blast
    moreover have "\<forall>j. \<not> sku_here (drop j g)"
    proof
      fix j from Cons.prems have "\<not> sku_here (drop (Suc j) (x # g))" by blast
      then show "\<not> sku_here (drop j g)" by simp
    qed
    ultimately show ?case using Cons.IH by simp
  qed
  from this [OF a] show "match_sku f = None" .
qed




subsection \<open>The suffix-stripping loop\<close>

lemma replace_at_end_prefix: "\<exists>t. s = replace_at_end here s @ t"
  by (induction s) auto

lemma replace_at_end_shorter:
  "replace_at_end here s = s \<or> length (replace_at_end here s) < length s"
proof -
  obtain t where t: "s = replace_at_end here s @ t"
    using replace_at_end_prefix by blast
  show ?thesis
  proof (cases "t = []")
    case True
    with t show ?thesis by simp
  next
    case False
    have "length s = length (replace_at_end here s) + length t"
      by (subst t) simp
    with False show ?thesis by simp
  qed
qed

lemma strip_loop_fuel_enough:
  "length n < k \<Longrightarrow> strip_loop_fuel k n = Some (strip_loop n)"
proof (induction k arbitrary: n)
  case 0
  then show ?case by simp
next
  case (Suc k)
  show ?case
  proof (cases "strip_once n \<noteq> n \<and> 0 < length (strip_once n)")
    case True
    with replace_at_end_shorter [of num_suffix_here n]
    have "length (strip_once n) < length n"
      by (auto simp: strip_once_def)
    with Suc.prems have "length (strip_once n) < k" by simp
    from Suc.IH [OF this] True show ?thesis
      by (subst strip_loop.simps) (simp add: Let_def)
  next
    case False
    then show ?thesis
      by (subst strip_loop.simps) (auto simp add: Let_def)
  qed
qed

lemma strip_loop_length: "length (strip_loop n) \<le> length n"
proof (induction n rule: strip_loop.induct)
  case (1 n)
  have le: "length (strip_once n) \<le> length n"
    using replace_at_end_shorter [of num_suffix_here n] by (auto simp: strip_once_def)
  show ?case
  proof (cases "strip_once n \<noteq> n \<and> 0 < length (strip_once n)")
    case True
    with "1.IH" [OF refl] have "length (strip_loop (strip_once n)) \<le> length (strip_once n)"
      by simp
    with le True show ?thesis
      by (subst strip_loop.simps) (simp add: Let_def)
  next
    case False
    with le show ?thesis
      by (subst strip_loop.simps) (auto simp add: Let_def)
  qed
qed

lemma strip_loop_stops: "strip_once (strip_loop n) = strip_loop n \<or> strip_loop n = []"
proof (induction n rule: strip_loop.induct)
  case (1 n)
  show ?case
  proof (cases "strip_once n \<noteq> n \<and> 0 < length (strip_once n)")
    case True
    with "1.IH" [OF refl] show ?thesis
      by (subst (1 2 3) strip_loop.simps) (simp add: Let_def)
  next
    case False
    then show ?thesis
      by (subst (1 2 3) strip_loop.simps) (auto simp add: Let_def)
  qed
qed

text \<open>
  Claim C6: \<open>getSkuFromFilename\<close> is total. Each iteration of the suffix-stripping loop
  either leaves the name unchanged (and the loop exits) or strictly shortens it, so the
  loop ends within \<open>length name + 1\<close> iterations with the value of \<open>strip_loop\<close>; this
  holds for names made only of separators and digits too, such as \<open>1-2-3.png\<close> and
  \<open>_-_.jpg\<close>.
\<close>

theorem strip_loop_terminates:
  "(strip_once name = name \<or> length (strip_once name) < length name)
   \<and> strip_loop_fuel (Suc (length name)) name = Some (strip_loop name)
   \<and> getSkuFromFilename ''1-2-3.png'' = ''1''
   \<and> getSkuFromFilename ''_-_.jpg'' = ''_-_''"
proof -
  have a: "strip_once name = name \<or> length (strip_once name) < length name"
    using replace_at_end_shorter [of num_suffix_here name] by (simp add: strip_once_def)
  have b: "strip_loop_fuel (Suc (length name)) name = Some (strip_loop name)"
    by (rule strip_loop_fuel_enough) simp
  have c: "getSkuFromFilename ''1-2-3.png'' = ''1''" by code_simp
  have d: "getSkuFromFilename ''_-_.jpg'' = ''_-_''" by code_simp
  from a b c d show ?thesis by blast
qed

subsection \<open>Stripping the extension\<close>

lemma str_split_nonempty: "str_split sep s \<noteq> []"
  by (induction s) (auto split: list.splits)

lemma str_split_append:
  "str_split sep (xs @ sep # ys) = str_split sep xs @ str_split sep ys"
proof (induction xs)
  case Nil
  then show ?case by simp
next
  case (Cons x xs)
  obtain p ps where p: "str_split sep xs = p # ps"
    using str_split_nonempty [of sep xs] by (cases "str_split sep xs") auto
  with Cons show ?case by simp
qed

lemma str_split_no_sep: "sep \<notin> set s \<Longrightarrow> str_split sep s = [s]"
  by (induction s) auto

lemma str_join_split: "str_join [sep] (str_split sep s) = s"
proof (induction s)
  case Nil
  then show ?case by simp
next
  case (Cons x xs)
  obtain p ps where p: "str_split sep xs = p # ps"
    using str_split_nonempty [of sep xs] by (cases "str_split sep xs") auto
  with Cons show ?case by (cases ps) auto
qed

lemma extension_stripped_dot:
  "CHR ''.'' \<notin> set ext \<Longrightarrow> extension_stripped (base @ ''.'' @ ext) = str_trim base"
  by (simp add: extension_stripped_def str_split_append str_split_no_sep
      slice_0_minus1_def str_join_split)

lemma extension_stripped_no_dot:
  "CHR ''.'' \<notin> set f \<Longrightarrow> extension_stripped f = []"
  by (simp add: extension_stripped_def str_split_no_sep slice_0_minus1_def str_trim_def)

lemma strip_loop_Nil: "strip_loop [] = []"
  by (subst strip_loop.simps) (simp add: strip_once_def)

lemma getSku_no_dot:
  "CHR ''.'' \<notin> set f \<Longrightarrow> match_sku f = None \<Longrightarrow> getSkuFromFilename f = []"
  by (simp add: getSkuFromFilename_def extension_stripped_no_dot strip_loop_Nil)

subsection \<open>The fallback: extension, parenthesized suffix, numeric suffixes\<close>

lemma sep_not_digit: "c = CHR ''-'' \<or> c = CHR ''_'' \<Longrightarrow> \<not> is_digit c"
  by (auto simp: is_digit_def)

lemma strip_once_suffix:
  assumes "c = CHR ''-'' \<or> c = CHR ''_''" and "list_all is_digit ds"
  shows "strip_once (s @ c # ds) = s"
proof (induction s)
  case Nil
  from assms show ?case
    by (auto simp: strip_once_def num_suffix_here_def)
next
  case (Cons x s)
  from assms(1) have "\<not> list_all is_digit (s @ c # ds)"
    by (simp add: sep_not_digit)
  then have "\<not> num_suffix_here (x # s @ c # ds)"
    by (simp add: num_suffix_here_def)
  with Cons show ?case by (simp add: strip_once_def)
qed

lemma strip_once_digits: "list_all is_digit ds \<Longrightarrow> strip_once ds = ds"
proof (induction ds)
  case Nil
  then show ?case by (simp add: strip_once_def)
next
  case (Cons y ds)
  then have "is_digit y" by simp
  then have "\<not> num_suffix_here (y # ds)"
    using sep_not_digit [of y] by (auto simp: num_suffix_here_def)
  with Cons show ?case by (simp add: strip_once_def)
qed

lemma strip_once_no_suffix:
  assumes "\<not> is_digit c" and "c \<noteq> CHR ''-''" and "c \<noteq> CHR ''_''" and "list_all is_digit ds"
  shows "strip_once (s @ c # ds) = s @ c # ds"
proof (induction s)
  case Nil
  from assms(2,3) have "\<not> num_suffix_here (c # ds)"
    by (simp add: num_suffix_here_def)
  with strip_once_digits [OF assms(4)] show ?case
    by (simp add: strip_once_def)
next
  case (Cons x s)
  from assms(1) have "\<not> list_all is_digit (s @ c # ds)" by simp
  then have "\<not> num_suffix_here (x # s @ c # ds)"
    by (simp add: num_suffix_here_def)
  with Cons show ?case by (simp add: strip_once_def)
qed


lemma paren_not_space: "\<not> is_space CHR ''(''"
  by (simp add: is_space_def)

lemma paren_suffix_here_full:
  assumes "list_all is_space ws" and "CHR '')'' \<notin> set body"
  shows "paren_suffix_here (ws @ ''('' @ body @ '')'')"
proof -
  from assms(1) have "dropWhile is_space (ws @ ''('' @ body @ '')'') = ''('' @ body @ '')''"
    by (simp add: dropWhile_append2 list_all_iff paren_not_space)
  with assms(2) show ?thesis
    by (simp add: paren_suffix_here_def butlast_append)
qed

lemma str_trim_middle:
  assumes "list_all is_space l" and "list_all is_space r"
    and "t = [] \<or> (\<not> is_space (hd t) \<and> \<not> is_space (last t))"
  shows "str_trim (l @ t @ r) = t"
proof (cases "t = []")
  case True
  with assms(1,2) have "\<forall>x\<in>set (l @ t @ r). is_space x"
    by (auto simp: list_all_iff)
  then have d: "dropWhile is_space (l @ t @ r) = []"
    by (simp only: dropWhile_eq_Nil_conv)
  show ?thesis unfolding str_trim_def d using True by simp
next
  case False
  with assms(3) have h: "\<not> is_space (hd t)" and e: "\<not> is_space (last t)" by simp_all
  from assms(1) have "dropWhile is_space (l @ t @ r) = dropWhile is_space (t @ r)"
    by (intro dropWhile_append2) (auto simp: list_all_iff)
  also from False h have "\<dots> = t @ r" by (cases t) simp_all
  finally have a: "dropWhile is_space (l @ t @ r) = t @ r" .
  from assms(2) have "dropWhile is_space (rev r @ rev t) = dropWhile is_space (rev t)"
    by (intro dropWhile_append2) (auto simp: list_all_iff)
  also from False e have "\<dots> = rev t" by (cases "rev t") (simp_all add: last_rev hd_rev)
  finally have b: "dropWhile is_space (rev (t @ r)) = rev t" by simp
  show ?thesis unfolding str_trim_def a b by simp
qed

lemma strip_once_cases:
  "strip_once name
     = (case dropWhile is_digit (rev name) of
          [] \<Rightarrow> name
        | c # t \<Rightarrow> if c = CHR ''-'' \<or> c = CHR ''_'' then rev t else name)"
proof -
  let ?ds = "rev (takeWhile is_digit (rev name))"
  have ds: "list_all is_digit ?ds"
    by (simp add: list_all_iff) (metis set_takeWhileD)
  have split: "name = rev (dropWhile is_digit (rev name)) @ ?ds"
    by (metis rev_append rev_rev_ident takeWhile_dropWhile_id)
  show ?thesis
  proof (cases "dropWhile is_digit (rev name)")
    case Nil
    with split have "name = ?ds" by simp
    with ds have "strip_once name = name" by (metis strip_once_digits)
    then show ?thesis by (simp only: Nil list.case)
  next
    case (Cons c t)
    then have nd: "\<not> is_digit c" by (metis hd_dropWhile list.distinct(1) list.sel(1))
    from split Cons have n: "name = rev t @ c # ?ds" by simp
    show ?thesis
    proof (cases "c = CHR ''-'' \<or> c = CHR ''_''")
      case True
      from strip_once_suffix [OF True ds, of "rev t"] n have "strip_once name = rev t" by simp
      with True show ?thesis by (simp only: Cons list.case if_True)
    next
      case False
      with strip_once_no_suffix [OF nd _ _ ds, of "rev t"] n have "strip_once name = name"
        by simp
      with False show ?thesis by (simp only: Cons list.case if_False)
    qed
  qed
qed

lemma strip_once_Nil: "strip_once [] = []"
  by (simp add: strip_once_def)

lemma strip_once_length: "length (strip_once n) \<le> length n"
  using replace_at_end_shorter [of num_suffix_here n] by (auto simp: strip_once_def)

lemma funpow_fixed: "f x = x \<Longrightarrow> (f ^^ k) x = x"
  by (induction k) simp_all

lemma strip_loop_iterate: "length n \<le> k \<Longrightarrow> (strip_once ^^ k) n = strip_loop n"
proof (induction n arbitrary: k rule: strip_loop.induct)
  case (1 n)
  show ?case
  proof (cases "strip_once n \<noteq> n \<and> 0 < length (strip_once n)")
    case True
    with replace_at_end_shorter [of num_suffix_here n]
    have "length (strip_once n) < length n" by (auto simp: strip_once_def)
    with "1.prems" obtain k' where k: "k = Suc k'" "length (strip_once n) \<le> k'"
      by (cases k) auto
    from "1.IH" [OF refl True k(2)] have "(strip_once ^^ k') (strip_once n) = strip_loop (strip_once n)" .
    moreover have "strip_loop n = strip_loop (strip_once n)"
      using True by (subst strip_loop.simps) (simp add: Let_def)
    ultimately show ?thesis by (simp add: k(1) funpow_swap1)
  next
    case False
    then have sl: "strip_loop n = strip_once n"
      by (subst strip_loop.simps) (auto simp add: Let_def)
    show ?thesis
    proof (cases "strip_once n = n")
      case True
      with sl show ?thesis by (simp add: funpow_fixed)
    next
      case ne: False
      with False have e: "strip_once n = []" by simp
      with ne have "n \<noteq> []" by auto
      with "1.prems" obtain k' where k: "k = Suc k'" by (cases k) auto
      have "(strip_once ^^ k') [] = []" by (rule funpow_fixed) (rule strip_once_Nil)
      with e sl show ?thesis by (simp add: k funpow_swap1)
    qed
  qed
qed

lemma strip_loop_fixed: "strip_once (strip_loop n) = strip_loop n"
  using strip_loop_stops [of n] by (auto simp: strip_once_Nil)


lemma replace_at_end_first_match:
  assumes "here t" and "t \<noteq> []" and "\<And>k. k < length p \<Longrightarrow> \<not> here (drop k p @ t)"
  shows "replace_at_end here (p @ t) = p"
  using assms(3)
proof (induction p)
  case Nil
  from assms(2) obtain c cs where "t = c # cs" by (cases t) auto
  with assms(1) show ?case by simp
next
  case (Cons x p)
  from Cons.prems [of 0] have "\<not> here (x # p @ t)" by simp
  moreover have "replace_at_end here (p @ t) = p"
  proof (rule Cons.IH)
    fix k assume "k < length p"
    with Cons.prems [of "Suc k"] show "\<not> here (drop k p @ t)" by simp
  qed
  ultimately show ?case by simp
qed

lemma replace_at_end_no_match:
  "(\<And>k. k < length s \<Longrightarrow> \<not> here (drop k s)) \<Longrightarrow> replace_at_end here s = s"
proof (induction s)
  case Nil
  then show ?case by simp
next
  case (Cons x s)
  from Cons.prems [of 0] have "\<not> here (x # s)" by simp
  moreover have "replace_at_end here s = s"
  proof (rule Cons.IH)
    fix k assume "k < length s"
    with Cons.prems [of "Suc k"] show "\<not> here (drop k s)" by simp
  qed
  ultimately show ?case by simp
qed

lemma open_paren_after:
  assumes "CHR '')'' \<notin> set rest"
  shows "CHR ''('' \<in> set (takeWhile (\<lambda>c. c \<noteq> CHR '')'') (rev (a @ ''('' @ rest)))"
proof -
  have "takeWhile (\<lambda>c. c \<noteq> CHR '')'') (rev rest @ CHR ''('' # rev a)
      = rev rest @ takeWhile (\<lambda>c. c \<noteq> CHR '')'') (CHR ''('' # rev a)"
    using assms by (intro takeWhile_append2) auto
  then show ?thesis by simp
qed

lemma paren_suffix_hereD:
  assumes "paren_suffix_here t"
  shows "\<exists>w b. t = w @ ''('' @ b @ '')'' \<and> list_all is_space w \<and> CHR '')'' \<notin> set b"
proof -
  from assms obtain r where r: "dropWhile is_space t = CHR ''('' # r" "r \<noteq> []"
    "last r = CHR '')''" "CHR '')'' \<notin> set (butlast r)"
    by (auto simp: paren_suffix_here_def split: list.splits)
  from r(2,3) have "r = butlast r @ '')''" by (metis append_butlast_last_id)
  with r(1) have "t = takeWhile is_space t @ ''('' @ butlast r @ '')''"
    by (metis append_Cons append_Nil takeWhile_dropWhile_id)
  moreover have "list_all is_space (takeWhile is_space t)"
    by (simp add: list_all_iff) (metis set_takeWhileD)
  ultimately show ?thesis using r(4) by blast
qed

lemma replace_paren_unchanged:
  assumes "name = [] \<or> last name \<noteq> CHR '')''
     \<or> CHR ''('' \<notin> set (takeWhile (\<lambda>c. c \<noteq> CHR '')'') (rev (butlast name)))"
  shows "replace_at_end paren_suffix_here name = name"
proof (rule replace_at_end_no_match)
  fix k assume "k < length name"
  show "\<not> paren_suffix_here (drop k name)"
  proof
    assume "paren_suffix_here (drop k name)"
    from paren_suffix_hereD [OF this] obtain w b where
      d: "drop k name = w @ ''('' @ b @ '')''" and b: "CHR '')'' \<notin> set b"
      by blast
    have "name = take k name @ drop k name" by simp
    with d have n: "name = ((take k name @ w) @ ''('' @ b) @ '')''" by simp
    then have "name \<noteq> []" by auto
    moreover from n have "last name = CHR '')''" by (metis last_snoc)
    moreover have "CHR ''('' \<in> set (takeWhile (\<lambda>c. c \<noteq> CHR '')'') (rev (butlast name)))"
    proof -
      from n have bl: "butlast name = (take k name @ w) @ ''('' @ b" by (metis butlast_snoc)
      from open_paren_after [OF b, of "take k name @ w"] show ?thesis
        by (simp only: bl [symmetric])
    qed
    ultimately show False using assms by blast
  qed
qed

lemma replace_paren_trailing:
  assumes ws: "list_all is_space ws" and body: "CHR '')'' \<notin> set body"
    and sp: "stem = [] \<or> \<not> is_space (last stem)"
    and closed: "CHR ''('' \<notin> set (takeWhile (\<lambda>c. c \<noteq> CHR '')'') (rev stem))"
  shows "replace_at_end paren_suffix_here (stem @ ws @ ''('' @ body @ '')'') = stem"
proof (rule replace_at_end_first_match)
  let ?t = "ws @ ''('' @ body @ '')''"
  show "paren_suffix_here ?t" using ws body by (rule paren_suffix_here_full)
  show "?t \<noteq> []" by simp
  fix k assume k: "k < length stem"
  let ?d = "drop k stem"
  from k have dne: "?d \<noteq> []" by simp
  with k sp have ld: "\<not> is_space (last ?d)" by auto
  from dne have "last ?d \<in> set ?d" by (rule last_in_set)
  with ld have dw: "dropWhile is_space (?d @ ?t) = dropWhile is_space ?d @ ?t"
    by (intro dropWhile_append1)
  from dne ld have "dropWhile is_space ?d \<noteq> []"
    by (metis dropWhile_eq_Nil_conv last_in_set)
  then obtain c rest where c: "dropWhile is_space ?d = c # rest"
    by (cases "dropWhile is_space ?d") auto
  show "\<not> paren_suffix_here (?d @ ?t)"
  proof
    assume h: "paren_suffix_here (?d @ ?t)"
    have bl: "butlast (rest @ ?t) = rest @ butlast ?t" by (simp add: butlast_append)
    from h dw c have "c = CHR ''(''" and "CHR '')'' \<notin> set (butlast (rest @ ?t))"
      by (simp_all add: paren_suffix_here_def)
    with bl have nr: "CHR '')'' \<notin> set rest" by simp
    define A where "A = take k stem @ takeWhile is_space ?d"
    have "stem = take k stem @ takeWhile is_space ?d @ dropWhile is_space ?d" by simp
    with c \<open>c = CHR ''(''\<close> have st: "stem = A @ ''('' @ rest" by (simp add: A_def)
    from open_paren_after [OF nr, of A]
    have "CHR ''('' \<in> set (takeWhile (\<lambda>c. c \<noteq> CHR '')'') (rev (A @ ''('' @ rest)))" .
    then have "CHR ''('' \<in> set (takeWhile (\<lambda>c. c \<noteq> CHR '')'') (rev stem))"
      by (simp only: st [symmetric])
    with closed show False by blast
  qed
qed

text \<open>
  Claim C5, as stated: for every file name without the structured code,
  \<open>getSkuFromFilename\<close> strips the extension, then one trailing parenthesized suffix,
  then the trailing numeric suffixes. A name without a dot has no extension to strip, and
  the steps would turn \<open>img-001-2\<close> into \<open>img\<close>; the program takes the text before the
  last dot, which is empty for such a name, and returns the empty string. And where the
  steps leave nothing, as for \<open>_-_.jpg\<close>, the program does not return the empty result
  but the name without its extension.
\<close>

theorem getSku_no_dot_counterexample:
  "match_sku ''img-001-2'' = None \<and> CHR ''.'' \<notin> set ''img-001-2''
   \<and> strip_loop (replace_at_end paren_suffix_here ''img-001-2'') = ''img''
   \<and> getSkuFromFilename ''img-001-2'' = []
   \<and> match_sku ''_-_.jpg'' = None
   \<and> strip_loop (replace_at_end paren_suffix_here ''_-_'') = []
   \<and> getSkuFromFilename ''_-_.jpg'' = ''_-_''"
  by code_simp

text \<open>
  Claim C5, amended: for a file name without the structured code that has a dot,
  \<open>getSkuFromFilename\<close> takes the text before the last dot and trims it (what is left
  between the white space at both ends); removes one trailing parenthesized suffix
  together with the white space before it, namely the text from the first opening
  parenthesis after the last closing one of the rest, when the name ends with a closing
  parenthesis, and nothing otherwise; then removes one trailing \<open>[-_]\<close> followed by
  digits, or one lone trailing \<open>[-_]\<close>, as often as there is one; and returns the result,
  or the trimmed text before the last dot when the result is empty. In particular
  \<open>product (2).jpg\<close> and \<open>product.jpg\<close> both give \<open>product\<close>, and \<open>img-001-2.png\<close> gives
  \<open>img\<close>.
\<close>

theorem getSku_dotted_fallback:
  "(CHR ''.'' \<notin> set ext \<and> (\<forall>j. \<not> sku_here (drop j (base @ ''.'' @ ext))) \<longrightarrow>
      getSkuFromFilename (base @ ''.'' @ ext)
        = (let trimmed = str_trim base;
               unparenthesized = replace_at_end paren_suffix_here trimmed;
               stripped = (strip_once ^^ length unparenthesized) unparenthesized
           in if stripped = [] then trimmed else stripped))
   \<and> (list_all is_space l \<and> list_all is_space r
        \<and> (t = [] \<or> (\<not> is_space (hd t) \<and> \<not> is_space (last t))) \<longrightarrow>
      str_trim (l @ t @ r) = t)
   \<and> (list_all is_space ws \<and> CHR '')'' \<notin> set body
        \<and> (stem = [] \<or> \<not> is_space (last stem))
        \<and> CHR ''('' \<notin> set (takeWhile (\<lambda>c. c \<noteq> CHR '')'') (rev stem)) \<longrightarrow>
      replace_at_end paren_suffix_here (stem @ ws @ ''('' @ body @ '')'') = stem)
   \<and> (name = [] \<or> last name \<noteq> CHR '')''
        \<or> CHR ''('' \<notin> set (takeWhile (\<lambda>c. c \<noteq> CHR '')'') (rev (butlast name))) \<longrightarrow>
      replace_at_end paren_suffix_here name = name)
   \<and> strip_once n
        = (case dropWhile is_digit (rev n) of
             [] \<Rightarrow> n
           | c # u \<Rightarrow> if c = CHR ''-'' \<or> c = CHR ''_'' then rev u else n)
   \<and> strip_loop n = (strip_once ^^ length n) n
   \<and> strip_once (strip_loop n) = strip_loop n
   \<and> getSkuFromFilename ''product (2).jpg'' = ''product''
   \<and> getSkuFromFilename ''product.jpg'' = ''product''
   \<and> getSkuFromFilename ''img-001-2.png'' = ''img''"
proof -
  have a: "getSkuFromFilename (base @ ''.'' @ ext)
        = (let trimmed = str_trim base;
               unparenthesized = replace_at_end paren_suffix_here trimmed;
               stripped = (strip_once ^^ length unparenthesized) unparenthesized
           in if stripped = [] then trimmed else stripped)"
    if dot: "CHR ''.'' \<notin> set ext" and code: "\<forall>j. \<not> sku_here (drop j (base @ ''.'' @ ext))"
  proof -
    have es: "extension_stripped (base @ ''.'' @ ext) = str_trim base"
      using dot by (rule extension_stripped_dot)
    from code have m: "match_sku (base @ ''.'' @ ext) = None"
      by (rule iffD2 [OF match_sku_None_iff])
    have it: "(strip_once ^^ length p) p = strip_loop p" for p
      by (rule strip_loop_iterate) simp
    show ?thesis
      unfolding getSkuFromFilename_def es m it by (simp add: Let_def)
  qed
  have b: "str_trim (l @ t @ r) = t"
    if "list_all is_space l" "list_all is_space r"
      "t = [] \<or> (\<not> is_space (hd t) \<and> \<not> is_space (last t))"
    using that by (rule str_trim_middle)
  have c: "replace_at_end paren_suffix_here (stem @ ws @ ''('' @ body @ '')'') = stem"
    if "list_all is_space ws" "CHR '')'' \<notin> set body" "stem = [] \<or> \<not> is_space (last stem)"
      "CHR ''('' \<notin> set (takeWhile (\<lambda>c. c \<noteq> CHR '')'') (rev stem))"
    using that by (rule replace_paren_trailing)
  have d: "replace_at_end paren_suffix_here name = name"
    if "name = [] \<or> last name \<noteq> CHR '')''
        \<or> CHR ''('' \<notin> set (takeWhile (\<lambda>c. c \<noteq> CHR '')'') (rev (butlast name)))"
    using that by (rule replace_paren_unchanged)
  have e: "strip_once n
        = (case dropWhile is_digit (rev n) of
             [] \<Rightarrow> n
           | c # u \<Rightarrow> if c = CHR ''-'' \<or> c = CHR ''_'' then rev u else n)"
    by (rule strip_once_cases)
  have f: "strip_loop n = (strip_once ^^ length n) n"
    by (rule strip_loop_iterate [symmetric]) simp
  have g: "strip_once (strip_loop n) = strip_loop n"
    by (rule strip_loop_fixed)
  have e1: "getSkuFromFilename ''product (2).jpg'' = ''product''" by code_simp
  have e2: "getSkuFromFilename ''product.jpg'' = ''product''" by code_simp
  have e3: "getSkuFromFilename ''img-001-2.png'' = ''img''" by code_simp
  from a b c d e f g e1 e2 e3 show ?thesis by blast
qed

theorem getSku_dotted_fallback_witness:
  "CHR ''.'' \<notin> set ''jpg''
   \<and> match_sku (''widget-1-2 (3)'' @ ''.'' @ ''jpg'') = None
   \<and> getSkuFromFilename (''widget-1-2 (3)'' @ ''.'' @ ''jpg'') = ''widget''
   \<and> str_trim (''  '' @ ''a b'' @ '' '') = ''a b''
   \<and> replace_at_end paren_suffix_here (''a (1)'' @ '' '' @ ''('' @ ''2'' @ '')'') = ''a (1)''
   \<and> replace_at_end paren_suffix_here ''a (1) b'' = ''a (1) b''
   \<and> replace_at_end paren_suffix_here ''a) 1)'' = ''a) 1)''
   \<and> strip_once ''widget-1-2'' = ''widget-1''
   \<and> strip_once ''widget-1a'' = ''widget-1a''"
proof -
  note inst = getSku_dotted_fallback
    [where base = "''widget-1-2 (3)''" and ext = "''jpg''"
       and l = "''  ''" and t = "''a b''" and r = "'' ''"
       and stem = "''a (1)''" and ws = "'' ''" and body = "''2''"]
  have h1: "CHR ''.'' \<notin> set ''jpg''" by simp
  have m: "match_sku (''widget-1-2 (3)'' @ ''.'' @ ''jpg'') = None" by code_simp
  then have h2: "\<forall>j. \<not> sku_here (drop j (''widget-1-2 (3)'' @ ''.'' @ ''jpg''))"
    by (rule iffD1 [OF match_sku_None_iff])
  have v: "(let trimmed = str_trim ''widget-1-2 (3)'';
               unparenthesized = replace_at_end paren_suffix_here trimmed;
               stripped = (strip_once ^^ length unparenthesized) unparenthesized
           in if stripped = [] then trimmed else stripped) = ''widget''"
    by code_simp
  from inst [where name = "[]" and n = "[]"] h1 h2 v
  have c1: "getSkuFromFilename (''widget-1-2 (3)'' @ ''.'' @ ''jpg'') = ''widget''"
    by simp
  have h3: "list_all is_space ''  ''" "list_all is_space '' ''"
    "''a b'' = [] \<or> (\<not> is_space (hd ''a b'') \<and> \<not> is_space (last ''a b''))"
    by (simp_all add: is_space_def)
  from inst [where name = "[]" and n = "[]"] h3
  have c2: "str_trim (''  '' @ ''a b'' @ '' '') = ''a b''"
    by blast
  have h4: "CHR '')'' \<notin> set ''2''" "''a (1)'' = [] \<or> \<not> is_space (last ''a (1)'')"
    "CHR ''('' \<notin> set (takeWhile (\<lambda>c. c \<noteq> CHR '')'') (rev ''a (1)''))"
    by (simp_all add: is_space_def)
  from inst [where name = "[]" and n = "[]"] h3(2) h4
  have c3: "replace_at_end paren_suffix_here (''a (1)'' @ '' '' @ ''('' @ ''2'' @ '')'') = ''a (1)''"
    by blast
  have h5: "''a (1) b'' = [] \<or> last ''a (1) b'' \<noteq> CHR '')''
     \<or> CHR ''('' \<notin> set (takeWhile (\<lambda>c. c \<noteq> CHR '')'') (rev (butlast ''a (1) b'')))"
    by simp
  from inst [where name = "''a (1) b''" and n = "[]"] h5
  have c4: "replace_at_end paren_suffix_here ''a (1) b'' = ''a (1) b''"
    by blast
  have h6: "''a) 1)'' = [] \<or> last ''a) 1)'' \<noteq> CHR '')''
     \<or> CHR ''('' \<notin> set (takeWhile (\<lambda>c. c \<noteq> CHR '')'') (rev (butlast ''a) 1)'')))"
    by simp
  from inst [where name = "''a) 1)''" and n = "[]"] h6
  have c5: "replace_at_end paren_suffix_here ''a) 1)'' = ''a) 1)''"
    by blast
  from inst [where name = "[]" and n = "''widget-1-2''"]
  have "strip_once ''widget-1-2''
        = (case dropWhile is_digit (rev ''widget-1-2'') of
             [] \<Rightarrow> ''widget-1-2''
           | c # u \<Rightarrow> if c = CHR ''-'' \<or> c = CHR ''_'' then rev u else ''widget-1-2'')"
    by blast
  then have c6: "strip_once ''widget-1-2'' = ''widget-1''"
    by (simp add: is_digit_def)
  from inst [where name = "[]" and n = "''widget-1a''"]
  have "strip_once ''widget-1a''
        = (case dropWhile is_digit (rev ''widget-1a'') of
             [] \<Rightarrow> ''widget-1a''
           | c # u \<Rightarrow> if c = CHR ''-'' \<or> c = CHR ''_'' then rev u else ''widget-1a'')"
    by blast
  then have c7: "strip_once ''widget-1a'' = ''widget-1a''"
    by (simp add: is_digit_def)
  from h1 m c1 c2 c3 c4 c5 c6 c7 show ?thesis by blast
qed

section \<open>Properties of organizing\<close>

subsection \<open>The map and the groups built from the files\<close>

lemma Map_get_set: "Map_get k (Map_set k' v m) = (if k = k' then Some v else Map_get k m)"
  by (simp add: Map_get_def Map_set_def update_conv')

lemma Map_get_delete: "Map_get k (Map_delete k' m) = (if k = k' then None else Map_get k m)"
  by (simp add: Map_get_def Map_delete_def delete_conv')

lemma get_or_empty_set:
  "get_or_empty k (Map_set k' v m) = (if k = k' then v else get_or_empty k m)"
  by (simp add: get_or_empty_def Map_get_set)

lemma add_file_get:
  "get_or_empty g (add_file u c m (k, f))
     = (if g = groupName (getSkuFromFilename (file_name f))
        then get_or_empty g m @ [Some \<lparr>img_id = u k, img_file = f, img_url = c k,
                                           img_prefix = None\<rparr>]
        else get_or_empty g m)"
  by (simp add: add_file_def Let_def get_or_empty_set)

lemma add_file_has:
  "Map_has g (add_file u c m (k, f))
     = (g = groupName (getSkuFromFilename (file_name f)) \<or> Map_has g m)"
  by (auto simp: add_file_def Let_def Map_has_def Map_set_def update_conv')

lemma foldl_add_file_member:
  "(k, f) \<in> set l \<Longrightarrow>
   Some \<lparr>img_id = u k, img_file = f, img_url = c k, img_prefix = None\<rparr>
     \<in> set (get_or_empty (groupName (getSkuFromFilename (file_name f)))
              (foldl (add_file u c) m l))
   \<and> Map_has (groupName (getSkuFromFilename (file_name f))) (foldl (add_file u c) m l)"
proof (induction l rule: rev_induct)
  case Nil
  then show ?case by simp
next
  case (snoc x l)
  obtain k' f' where x: "x = (k', f')" by (cases x)
  show ?case
  proof (cases "(k, f) \<in> set l")
    case True
    from snoc.IH [OF True] show ?thesis
      by (auto simp add: x add_file_get add_file_has)
  next
    case False
    with snoc.prems have "x = (k, f)" by simp
    then show ?thesis by (simp add: add_file_get add_file_has)
  qed
qed

lemma organize_files_member:
  assumes "k < length fs"
  shows "Some \<lparr>img_id = u k, img_file = fs ! k, img_url = c k, img_prefix = None\<rparr>
     \<in> set (get_or_empty (groupName (getSkuFromFilename (file_name (fs ! k))))
              (organize_files u c fs))
     \<and> Map_has (groupName (getSkuFromFilename (file_name (fs ! k)))) (organize_files u c fs)"
proof -
  from assms have "(k, fs ! k) \<in> set (enumerate 0 fs)"
    by (simp add: in_set_enumerate_eq)
  from foldl_add_file_member [OF this] show ?thesis
    by (simp add: organize_files_def)
qed

lemma group_contents_set:
  "group_contents (Map_set g v m) = Map_set g (map (map_option img_file) v) (group_contents m)"
  by (induction m) (auto simp: group_contents_def Map_set_def)

lemma group_contents_get:
  "get_or_empty g (group_contents m) = map (map_option img_file) (get_or_empty g m)"
  by (induction m) (auto simp: group_contents_def get_or_empty_def Map_get_def)

lemma group_contents_add_file:
  "group_contents (add_file u c m (k, f))
     = (let g = groupName (getSkuFromFilename (file_name f))
        in Map_set g (get_or_empty g (group_contents m) @ [Some f]) (group_contents m))"
  by (simp add: add_file_def Let_def group_contents_set group_contents_get)

lemma group_contents_foldl:
  "group_contents m = group_contents m' \<Longrightarrow>
   group_contents (foldl (add_file u c) m (enumerate k fs))
     = group_contents (foldl (add_file u' c') m' (enumerate k' fs))"
proof (induction fs arbitrary: m m' k k')
  case Nil
  then show ?case by simp
next
  case (Cons f fs)
  have "group_contents (add_file u c m (k, f)) = group_contents (add_file u' c' m' (k', f))"
    by (simp add: group_contents_add_file Cons.prems)
  from Cons.IH [OF this] show ?case by simp
qed

lemma group_contents_organize_files:
  "group_contents (organize_files u c fs) = group_contents (organize_files u' c' fs)"
  unfolding organize_files_def by (rule group_contents_foldl) simp

lemma group_urls_defined: "list_all (\<lambda>x. x \<noteq> None) g \<Longrightarrow> \<exists>us. group_urls g = Inr us"
proof (induction g)
  case Nil
  then show ?case by simp
next
  case (Cons x g)
  then obtain img where "x = Some img" by auto
  with Cons show ?case by auto
qed

lemma map_urls_defined: "no_undefined m \<Longrightarrow> \<exists>us. map_urls m = Inr us"
proof (induction m)
  case Nil
  then show ?case by simp
next
  case (Cons kg m)
  obtain k g where kg: "kg = (k, g)" by (cases kg)
  from Cons.prems kg obtain us where "group_urls g = Inr us"
    using group_urls_defined [of g] by (auto simp: no_undefined_def)
  moreover from Cons obtain vs where "map_urls m = Inr vs"
    by (auto simp: no_undefined_def)
  ultimately show ?case by (simp add: kg)
qed

lemma no_undefined_set:
  "no_undefined m \<Longrightarrow> list_all (\<lambda>x. x \<noteq> None) v \<Longrightarrow> no_undefined (Map_set g v m)"
  by (induction m) (auto simp: no_undefined_def Map_set_def)

lemma no_undefined_get:
  "no_undefined m \<Longrightarrow> list_all (\<lambda>x. x \<noteq> None) (get_or_empty g m)"
  by (induction m) (auto simp: no_undefined_def get_or_empty_def Map_get_def)

lemma no_undefined_delete: "no_undefined m \<Longrightarrow> no_undefined (Map_delete g m)"
  by (induction m) (auto simp: no_undefined_def Map_delete_def)

lemma no_undefined_add_file:
  assumes "no_undefined m"
  shows "no_undefined (add_file u c m kf)"
  unfolding add_file_def Let_def
proof (rule no_undefined_set [OF assms])
  fix g x
  show "list_all (\<lambda>x. x \<noteq> None) (get_or_empty g m @ [Some x])"
    using no_undefined_get [OF assms, of g] by simp
qed

lemma no_undefined_foldl:
  "no_undefined m \<Longrightarrow> no_undefined (foldl (add_file u c) m l)"
  by (induction l arbitrary: m) (simp_all add: no_undefined_add_file)

lemma no_undefined_organize_files: "no_undefined (organize_files u c fs)"
  unfolding organize_files_def by (rule no_undefined_foldl) (simp add: no_undefined_def)

lemma organizeImages_run:
  assumes "files st \<noteq> []" and "no_undefined (organizedImages st)"
  shows "\<exists>us. map_urls (organizedImages st) = Inr us
      \<and> organizeImages u c st
          = Inr (st\<lparr>isLoading := False, error := None, revoked := revoked st @ us,
                    organizedImages := organize_files u c (files st)\<rparr>)"
proof -
  from map_urls_defined [OF assms(2)] obtain us where us: "map_urls (organizedImages st) = Inr us"
    by blast
  with assms(1) show ?thesis
    by (simp add: organizeImages_def clearOrganizedImages_def)
qed

text \<open>
  Claim C3, as stated: organizing an empty list of files yields an empty store and is not
  an error. In the program the handler has a guard for the empty list: it sets the error
  message and returns, and the store is not touched.
\<close>

theorem organizeImages_empty_counterexample:
  "files initial_app = []
   \<and> organizeImages sample_uuid sample_url initial_app
       = Inr (initial_app\<lparr>error := Some ''Please select some images first.''\<rparr>)"
  by (simp add: organizeImages_def initial_app_def)

text \<open>
  Claim C3, amended: with no files, \<open>organizeImages\<close> sets the error message
  \<open>Please select some images first.\<close> and changes nothing else. With at least one file
  (and a store that holds no \<open>undefined\<close>, so that releasing the previews does not throw)
  it succeeds, clears the error and replaces the store by the groups built from the
  files; run again on the same files, with whatever new ids and preview URLs, it
  succeeds and gives groups with the same keys, the same order and the same payloads.
\<close>

theorem organizeImages_contents:
  assumes "files st \<noteq> []" and "no_undefined (organizedImages st)"
  shows "organizeImages u c (st\<lparr>files := []\<rparr>)
           = Inr (st\<lparr>files := [], error := Some ''Please select some images first.''\<rparr>)
       \<and> (\<exists>st1 st2. organizeImages u c st = Inr st1
              \<and> organizeImages u' c' st1 = Inr st2
              \<and> files st1 = files st \<and> error st1 = None
              \<and> organizedImages st1 = organize_files u c (files st)
              \<and> group_contents (organizedImages st2) = group_contents (organizedImages st1))"
proof -
  have a: "organizeImages u c (st\<lparr>files := []\<rparr>)
           = Inr (st\<lparr>files := [], error := Some ''Please select some images first.''\<rparr>)"
    by (simp add: organizeImages_def)
  from organizeImages_run [OF assms, of u c] obtain us st1
    where st1: "organizeImages u c st = Inr st1"
      "st1 = st\<lparr>isLoading := False, error := None, revoked := revoked st @ us,
                 organizedImages := organize_files u c (files st)\<rparr>"
    by blast
  from st1(2) assms(1) have f1: "files st1 \<noteq> []" "files st1 = files st" "error st1 = None"
    "organizedImages st1 = organize_files u c (files st)"
    by simp_all
  then have "no_undefined (organizedImages st1)"
    by (simp add: no_undefined_organize_files)
  from organizeImages_run [OF f1(1) this, of u' c'] obtain vs st2
    where st2: "organizeImages u' c' st1 = Inr st2"
      "st2 = st1\<lparr>isLoading := False, error := None, revoked := revoked st1 @ vs,
                  organizedImages := organize_files u' c' (files st1)\<rparr>"
    by blast
  from st2(2) f1 have "group_contents (organizedImages st2) = group_contents (organizedImages st1)"
    by (simp add: group_contents_organize_files [of u' c' _ u c])
  with a st1(1) st2(1) f1 show ?thesis by blast
qed

theorem organizeImages_contents_witness:
  "files (initial_app\<lparr>files := scenario_files\<rparr>) \<noteq> []
   \<and> no_undefined (organizedImages (initial_app\<lparr>files := scenario_files\<rparr>))
   \<and> (\<exists>st1 st2.
         organizeImages sample_uuid sample_url (initial_app\<lparr>files := scenario_files\<rparr>) = Inr st1
         \<and> organizeImages sample_url sample_uuid st1 = Inr st2
         \<and> group_contents (organizedImages st1)
             = [(''123456-78901-234'', [Some (scenario_files ! 0), Some (scenario_files ! 1)]),
                (''random'', [Some (scenario_files ! 2)])]
         \<and> group_contents (organizedImages st2) = group_contents (organizedImages st1))"
proof -
  have h1: "files (initial_app\<lparr>files := scenario_files\<rparr>) \<noteq> []"
    by (simp add: scenario_files_def)
  have h2: "no_undefined (organizedImages (initial_app\<lparr>files := scenario_files\<rparr>))"
    by (simp add: initial_app_def no_undefined_def)
  have v: "group_contents (organize_files sample_uuid sample_url scenario_files)
      = [(''123456-78901-234'', [Some (scenario_files ! 0), Some (scenario_files ! 1)]),
         (''random'', [Some (scenario_files ! 2)])]"
    by code_simp
  from organizeImages_contents [OF h1 h2, of sample_uuid sample_url sample_url sample_uuid]
  obtain st1 st2 where
    "organizeImages sample_uuid sample_url (initial_app\<lparr>files := scenario_files\<rparr>) = Inr st1"
    "organizeImages sample_url sample_uuid st1 = Inr st2"
    "organizedImages st1 = organize_files sample_uuid sample_url scenario_files"
    "group_contents (organizedImages st2) = group_contents (organizedImages st1)"
    by auto
  with v h1 h2 show ?thesis by auto
qed

subsection \<open>File names without a dot\<close>

text \<open>
  Claim C9: for a file whose name has no dot and no structured code,
  \<open>getSkuFromFilename\<close> returns the empty string, because the name without its
  extension is empty; \<open>organizeImages\<close> then puts the file into the group
  \<open>Unidentified\<close>, also when the name is an ordinary non-empty one such as \<open>product\<close>.
\<close>

theorem no_dot_Unidentified:
  assumes "k < length fs" and "CHR ''.'' \<notin> set (file_name (fs ! k))"
    and "\<forall>j. \<not> sku_here (drop j (file_name (fs ! k)))"
  shows "getSkuFromFilename (file_name (fs ! k)) = []
       \<and> Map_has ''Unidentified'' (organize_files u c fs)
       \<and> Some \<lparr>img_id = u k, img_file = fs ! k, img_url = c k, img_prefix = None\<rparr>
           \<in> set (get_or_empty ''Unidentified'' (organize_files u c fs))"
proof -
  from assms(3) have "match_sku (file_name (fs ! k)) = None"
    by (simp add: match_sku_None_iff)
  with assms(2) have e: "getSkuFromFilename (file_name (fs ! k)) = []"
    by (rule getSku_no_dot)
  then have "groupName (getSkuFromFilename (file_name (fs ! k))) = ''Unidentified''"
    by (simp add: groupName_def)
  with organize_files_member [OF assms(1), of u c] e show ?thesis by simp
qed

theorem no_dot_Unidentified_witness:
  "0 < length [\<lparr>file_name = ''product'', file_blob = 0\<rparr>]
   \<and> CHR ''.'' \<notin> set ''product''
   \<and> match_sku ''product'' = None
   \<and> getSkuFromFilename ''product'' = []
   \<and> organize_files sample_uuid sample_url [\<lparr>file_name = ''product'', file_blob = 0\<rparr>]
       = [(''Unidentified'',
           [Some \<lparr>img_id = ''uuid-0'', img_file = \<lparr>file_name = ''product'', file_blob = 0\<rparr>,
                   img_url = ''blob:0'', img_prefix = None\<rparr>])]"
proof -
  let ?fs = "[\<lparr>file_name = ''product'', file_blob = 0\<rparr>]"
  have h1: "0 < length ?fs" by simp
  have h2: "CHR ''.'' \<notin> set (file_name (?fs ! 0))" by simp
  have m: "match_sku ''product'' = None" by code_simp
  from m [unfolded match_sku_None_iff]
  have h3: "\<forall>j. \<not> sku_here (drop j (file_name (?fs ! 0)))"
    by simp
  from no_dot_Unidentified [OF h1 h2 h3, of sample_uuid sample_url]
  have g: "getSkuFromFilename ''product'' = []" by simp
  have o: "organize_files sample_uuid sample_url ?fs
       = [(''Unidentified'',
           [Some \<lparr>img_id = ''uuid-0'', img_file = \<lparr>file_name = ''product'', file_blob = 0\<rparr>,
                   img_url = ''blob:0'', img_prefix = None\<rparr>])]"
    by code_simp
  from h1 m g o show ?thesis by simp
qed

section \<open>Properties of the handlers that edit the groups\<close>

subsection \<open>Renaming a group\<close>

lemma Map_has_get: "Map_has k m = (Map_get k m \<noteq> None)"
  by (simp add: Map_has_def Map_get_def)

lemma get_or_empty_Some: "Map_get k m = Some g \<Longrightarrow> get_or_empty k m = g"
  by (simp add: get_or_empty_def)

lemma get_or_empty_None: "Map_get k m = None \<Longrightarrow> get_or_empty k m = []"
  by (simp add: get_or_empty_def)

text \<open>
  Claim C7: in a store that holds group \<open>a\<close>, \<open>handleSkuChange a b\<close> with \<open>b\<close> another
  group of the store leaves \<open>b\<close> with its own items followed by the items of \<open>a\<close>, in
  their order, and removes the key \<open>a\<close>; with \<open>b\<close> not in the store, \<open>b\<close> gets the items
  of \<open>a\<close> unchanged and \<open>a\<close> is removed; with \<open>b\<close> equal to \<open>a\<close> or empty, the store is
  unchanged. The groups under other keys keep their items.
\<close>

theorem handleSkuChange_merge_or_rename:
  assumes "Map_get a (organizedImages st) = Some as"
  shows "(a \<noteq> b \<and> b \<noteq> [] \<and> Map_get b (organizedImages st) = Some bs \<longrightarrow>
            Map_get b (organizedImages (handleSkuChange a b st)) = Some (bs @ as)
            \<and> \<not> Map_has a (organizedImages (handleSkuChange a b st)))
       \<and> (a \<noteq> b \<and> b \<noteq> [] \<and> Map_get b (organizedImages st) = None \<longrightarrow>
            Map_get b (organizedImages (handleSkuChange a b st)) = Some as
            \<and> \<not> Map_has a (organizedImages (handleSkuChange a b st)))
       \<and> (a = b \<or> b = [] \<longrightarrow>
            organizedImages (handleSkuChange a b st) = organizedImages st)
       \<and> (k \<noteq> a \<and> k \<noteq> b \<longrightarrow>
            Map_get k (organizedImages (handleSkuChange a b st)) = Map_get k (organizedImages st))"
proof -
  let ?m = "organizedImages st"
  let ?m' = "organizedImages (handleSkuChange a b st)"
  have merge: "Map_get b ?m' = Some (bs @ as) \<and> \<not> Map_has a ?m'"
    if "a \<noteq> b" "b \<noteq> []" "Map_get b ?m = Some bs"
    using that assms
    by (simp add: handleSkuChange_def Let_def Map_has_get Map_get_set Map_get_delete
        get_or_empty_def)
  have rename: "Map_get b ?m' = Some as \<and> \<not> Map_has a ?m'"
    if "a \<noteq> b" "b \<noteq> []" "Map_get b ?m = None"
    using that assms
    by (simp add: handleSkuChange_def Let_def Map_has_get Map_get_set Map_get_delete
        get_or_empty_def)
  have same: "?m' = ?m" if "a = b \<or> b = []"
    using that by (auto simp: handleSkuChange_def)
  have other: "Map_get k ?m' = Map_get k ?m" if "k \<noteq> a" "k \<noteq> b"
    using that
    by (simp add: handleSkuChange_def Let_def Map_get_set Map_get_delete)
  from merge rename same other show ?thesis by blast
qed

theorem handleSkuChange_merge_or_rename_witness:
  "Map_get ''a'' (organizedImages two_groups) = Some [Some img_a]
   \<and> Map_get ''b'' (organizedImages two_groups) = Some [Some img_b]
   \<and> Map_get ''c'' (organizedImages two_groups) = None
   \<and> organizedImages (handleSkuChange ''a'' ''b'' two_groups)
       = [(''b'', [Some img_b, Some img_a])]
   \<and> organizedImages (handleSkuChange ''a'' ''c'' two_groups)
       = [(''b'', [Some img_b]), (''c'', [Some img_a])]
   \<and> organizedImages (handleSkuChange ''a'' ''a'' two_groups) = organizedImages two_groups
   \<and> organizedImages (handleSkuChange ''a'' [] two_groups) = organizedImages two_groups
   \<and> Map_get ''b'' (organizedImages (handleSkuChange ''a'' ''b'' two_groups))
       = Some ([Some img_b] @ [Some img_a])
   \<and> \<not> Map_has ''a'' (organizedImages (handleSkuChange ''a'' ''b'' two_groups))
   \<and> Map_get ''c'' (organizedImages (handleSkuChange ''a'' ''c'' two_groups)) = Some [Some img_a]
   \<and> Map_get ''b'' (organizedImages (handleSkuChange ''a'' ''c'' two_groups))
       = Map_get ''b'' (organizedImages two_groups)"
proof -
  have ga: "Map_get ''a'' (organizedImages two_groups) = Some [Some img_a]"
    by (simp add: two_groups_def Map_get_def)
  have gb: "Map_get ''b'' (organizedImages two_groups) = Some [Some img_b]"
    by (simp add: two_groups_def Map_get_def)
  have gc: "Map_get ''c'' (organizedImages two_groups) = None"
    by (simp add: two_groups_def Map_get_def)
  have e1: "organizedImages (handleSkuChange ''a'' ''b'' two_groups)
       = [(''b'', [Some img_b, Some img_a])]"
    by (simp add: two_groups_def handleSkuChange_def Let_def Map_has_def Map_set_def
        Map_delete_def get_or_empty_def Map_get_def)
  have e2: "organizedImages (handleSkuChange ''a'' ''c'' two_groups)
       = [(''b'', [Some img_b]), (''c'', [Some img_a])]"
    by (simp add: two_groups_def handleSkuChange_def Let_def Map_has_def Map_set_def
        Map_delete_def get_or_empty_def Map_get_def)
  from handleSkuChange_merge_or_rename [OF ga, of "''b''" "[Some img_b]" "''b''"] gb
  have t1: "Map_get ''b'' (organizedImages (handleSkuChange ''a'' ''b'' two_groups))
         = Some ([Some img_b] @ [Some img_a])
       \<and> \<not> Map_has ''a'' (organizedImages (handleSkuChange ''a'' ''b'' two_groups))"
    by simp
  from handleSkuChange_merge_or_rename [OF ga, of "''c''" "[]" "''b''"] gc
  have t2: "Map_get ''c'' (organizedImages (handleSkuChange ''a'' ''c'' two_groups))
         = Some [Some img_a]
       \<and> Map_get ''b'' (organizedImages (handleSkuChange ''a'' ''c'' two_groups))
         = Map_get ''b'' (organizedImages two_groups)"
    by simp
  from handleSkuChange_merge_or_rename [OF ga, of "''a''" "[]" "''b''"]
  have t3: "organizedImages (handleSkuChange ''a'' ''a'' two_groups) = organizedImages two_groups"
    by simp
  from handleSkuChange_merge_or_rename [OF ga, of "[]" "[]" "''b''"]
  have t4: "organizedImages (handleSkuChange ''a'' [] two_groups) = organizedImages two_groups"
    by simp
  from ga gb gc e1 e2 t1 t2 t3 t4 show ?thesis by blast
qed

subsection \<open>Duplicating, then deleting\<close>

lemma find_id_defined:
  "list_all (\<lambda>x. x \<noteq> None) g \<Longrightarrow>
   \<exists>r. find_id x g = Inr r
     \<and> (case r of
           None \<Rightarrow> (\<forall>y. Some y \<in> set g \<longrightarrow> img_id y \<noteq> x)
         | Some y \<Rightarrow> Some y \<in> set g \<and> img_id y = x)"
proof (induction g)
  case Nil
  then show ?case by simp
next
  case (Cons e g)
  then obtain img where "e = Some img" by auto
  with Cons show ?case by (auto split: option.splits)
qed

lemma filter_not_id_defined:
  "list_all (\<lambda>x. x \<noteq> None) g \<Longrightarrow>
   filter_not_id x g = Inr (filter (\<lambda>e. map_option img_id e \<noteq> Some x) g)"
proof (induction g)
  case Nil
  then show ?case by simp
next
  case (Cons e g)
  then obtain img where "e = Some img" by auto
  with Cons show ?case by auto
qed

lemma handleDeleteImage_other_survives:
  assumes get: "Map_get sku (organizedImages st) = Some g"
    and wt: "list_all (\<lambda>x. x \<noteq> None) g"
    and y: "Some y \<in> set g" "img_id y = x"
    and same: "\<And>z. Some z \<in> set g \<Longrightarrow> img_id z = x \<Longrightarrow> img_url z = img_url y"
    and k: "Some k \<in> set g" "img_id k \<noteq> x"
  shows "\<exists>st2 g2. handleDeleteImage sku x st = Inr st2
      \<and> img_url y \<in> set (revoked st2)
      \<and> Map_get sku (organizedImages st2) = Some g2 \<and> Some k \<in> set g2"
proof -
  from find_id_defined [OF wt, of x] obtain r where r: "find_id x g = Inr r"
    "case r of None \<Rightarrow> (\<forall>y. Some y \<in> set g \<longrightarrow> img_id y \<noteq> x)
     | Some y \<Rightarrow> Some y \<in> set g \<and> img_id y = x"
    by blast
  from r(2) y obtain z where z: "r = Some z" "Some z \<in> set g" "img_id z = x"
    by (cases r) auto
  from same [OF z(2,3)] have url: "img_url z = img_url y" .
  let ?g2 = "filter (\<lambda>e. map_option img_id e \<noteq> Some x) g"
  have f: "filter_not_id x g = Inr ?g2"
    using wt by (rule filter_not_id_defined)
  from k have k2: "Some k \<in> set ?g2" by simp
  then have ne: "0 < length ?g2" by (rule length_pos_if_in_set)
  let ?st2 = "st\<lparr>revoked := revoked st @ [img_url z],
                 organizedImages := Map_set sku ?g2 (organizedImages st)\<rparr>"
  from get r(1) z(1) f ne have "handleDeleteImage sku x st = Inr ?st2"
    by (simp add: handleDeleteImage_def Let_def)
  moreover have "img_url y \<in> set (revoked ?st2)" using url by simp
  moreover have "Map_get sku (organizedImages ?st2) = Some ?g2"
    by (simp add: Map_get_set)
  ultimately show ?thesis using k2 by blast
qed

text \<open>
  Claim C10: \<open>handleDuplicateImage\<close> gives the copy the preview URL and the payload of
  the original, and \<open>handleDeleteImage\<close> revokes the URL of the item it removes. So
  after an item is duplicated, deleting the original leaves the copy in the group with a
  URL that has been revoked, and deleting the copy leaves the original with a URL that
  has been revoked. The group is one without \<open>undefined\<close> and with distinct ids, and the
  id of the copy is new.
\<close>

theorem duplicate_then_delete_revokes_shared_url:
  assumes get: "Map_get sku (organizedImages st) = Some g"
    and i: "i < length g" "g ! i = Some orig"
    and wt: "list_all (\<lambda>x. x \<noteq> None) g"
    and dist: "distinct (map (map_option img_id) g)"
    and fresh: "Some uuid \<notin> set (map (map_option img_id) g)"
  shows "let st1 = handleDuplicateImage sku i uuid st; copy = orig\<lparr>img_id := uuid\<rparr>
         in img_url copy = img_url orig \<and> img_file copy = img_file orig
            \<and> (\<exists>st2 g2. handleDeleteImage sku (img_id orig) st1 = Inr st2
                  \<and> img_url orig \<in> set (revoked st2)
                  \<and> Map_get sku (organizedImages st2) = Some g2
                  \<and> Some copy \<in> set g2 \<and> img_url copy \<in> set (revoked st2))
            \<and> (\<exists>st2 g2. handleDeleteImage sku uuid st1 = Inr st2
                  \<and> img_url copy \<in> set (revoked st2)
                  \<and> Map_get sku (organizedImages st2) = Some g2
                  \<and> Some orig \<in> set g2 \<and> img_url orig \<in> set (revoked st2))"
proof -
  let ?copy = "orig\<lparr>img_id := uuid\<rparr>"
  let ?g' = "splice_in (Suc i) (Some ?copy) g"
  let ?st1 = "handleDuplicateImage sku i uuid st"
  from i have orig_in: "Some orig \<in> set g" by (metis nth_mem)
  from fresh orig_in have ne: "img_id orig \<noteq> uuid" by force
  from get i have st1: "organizedImages ?st1 = Map_set sku ?g' (organizedImages st)"
    by (simp add: handleDuplicateImage_def Let_def array_at_def)
  then have get1: "Map_get sku (organizedImages ?st1) = Some ?g'"
    by (simp add: Map_get_set)
  have set': "set ?g' = insert (Some ?copy) (set g)"
  proof -
    have "set (take (Suc i) g) \<union> set (drop (Suc i) g) = set g"
      by (metis append_take_drop_id set_append)
    moreover have "set ?g' = insert (Some ?copy) (set (take (Suc i) g) \<union> set (drop (Suc i) g))"
      by (simp add: splice_in_def)
    ultimately show ?thesis by simp
  qed
  from wt have wt': "list_all (\<lambda>x. x \<noteq> None) ?g'"
    by (simp add: list_all_iff set')
  have uniq: "z = orig" if "Some z \<in> set g" "img_id z = img_id orig" for z
  proof -
    from dist have "inj_on (map_option img_id) (set g)" by (simp add: distinct_map)
    from inj_onD [OF this, of "Some z" "Some orig"] that orig_in show ?thesis by simp
  qed
  have notin: "img_id z \<noteq> uuid" if "Some z \<in> set g" for z
    using fresh that by force
  have del_orig: "\<exists>st2 g2. handleDeleteImage sku (img_id orig) ?st1 = Inr st2
      \<and> img_url orig \<in> set (revoked st2)
      \<and> Map_get sku (organizedImages st2) = Some g2 \<and> Some ?copy \<in> set g2"
  proof (rule handleDeleteImage_other_survives [OF get1 wt'])
    show "Some orig \<in> set ?g'" using orig_in by (simp add: set')
    show "img_id orig = img_id orig" ..
    show "Some ?copy \<in> set ?g'" by (simp add: set')
    show "img_id ?copy \<noteq> img_id orig" using ne by simp
    fix z assume a: "Some z \<in> set ?g'" "img_id z = img_id orig"
    from a(1) have "z = ?copy \<or> Some z \<in> set g" by (simp add: set')
    then show "img_url z = img_url orig"
    proof
      assume "z = ?copy"
      then have "img_url z = img_url ?copy" by (rule arg_cong)
      then show ?thesis by simp
    next
      assume "Some z \<in> set g"
      from uniq [OF this a(2)] show ?thesis by simp
    qed
  qed
  have del_copy: "\<exists>st2 g2. handleDeleteImage sku uuid ?st1 = Inr st2
      \<and> img_url ?copy \<in> set (revoked st2)
      \<and> Map_get sku (organizedImages st2) = Some g2 \<and> Some orig \<in> set g2"
  proof (rule handleDeleteImage_other_survives [OF get1 wt'])
    show "Some ?copy \<in> set ?g'" by (simp add: set')
    show "img_id ?copy = uuid" by simp
    show "Some orig \<in> set ?g'" using orig_in by (simp add: set')
    show "img_id orig \<noteq> uuid" by (rule ne)
    fix z assume a: "Some z \<in> set ?g'" "img_id z = uuid"
    from a(1) have "z = ?copy \<or> Some z \<in> set g" by (simp add: set')
    with notin [of z] a(2) have "z = ?copy" by blast
    then show "img_url z = img_url ?copy" by (rule arg_cong)
  qed
  have "img_url ?copy = img_url orig" "img_file ?copy = img_file orig" by simp_all
  with del_orig del_copy show ?thesis unfolding Let_def by auto
qed


theorem duplicate_then_delete_revokes_shared_url_witness:
  "Map_get ''a'' (organizedImages two_groups) = Some [Some img_a]
   \<and> distinct (map (map_option img_id) [Some img_a])
   \<and> Some ''id-copy'' \<notin> set (map (map_option img_id) [Some img_a])
   \<and> (\<exists>st2 g2. handleDeleteImage ''a'' (img_id img_a)
                    (handleDuplicateImage ''a'' 0 ''id-copy'' two_groups) = Inr st2
          \<and> img_url img_a \<in> set (revoked st2)
          \<and> Map_get ''a'' (organizedImages st2) = Some g2
          \<and> Some (img_a\<lparr>img_id := ''id-copy''\<rparr>) \<in> set g2)
   \<and> (\<exists>st2 g2. handleDeleteImage ''a'' ''id-copy''
                    (handleDuplicateImage ''a'' 0 ''id-copy'' two_groups) = Inr st2
          \<and> img_url img_a \<in> set (revoked st2)
          \<and> Map_get ''a'' (organizedImages st2) = Some g2
          \<and> Some img_a \<in> set g2)
   \<and> handleDeleteImage ''a'' ''id-a'' (handleDuplicateImage ''a'' 0 ''id-copy'' two_groups)
       = Inr (two_groups\<lparr>revoked := [''blob:a''],
                organizedImages := [(''a'', [Some (img_a\<lparr>img_id := ''id-copy''\<rparr>)]),
                                    (''b'', [Some img_b])]\<rparr>)"
proof -
  have h1: "Map_get ''a'' (organizedImages two_groups) = Some [Some img_a]"
    by (simp add: two_groups_def Map_get_def)
  have h2: "0 < length [Some img_a]" by simp
  have h3: "[Some img_a] ! 0 = Some img_a" by simp
  have h4: "list_all (\<lambda>x. x \<noteq> None) [Some img_a]" by simp
  have h5: "distinct (map (map_option img_id) [Some img_a])" by simp
  have h6: "Some ''id-copy'' \<notin> set (map (map_option img_id) [Some img_a])"
    by (simp add: img_a_def)
  from duplicate_then_delete_revokes_shared_url [OF h1 h2 h3 h4 h5 h6]
  have t: "(\<exists>st2 g2. handleDeleteImage ''a'' (img_id img_a)
                    (handleDuplicateImage ''a'' 0 ''id-copy'' two_groups) = Inr st2
          \<and> img_url img_a \<in> set (revoked st2)
          \<and> Map_get ''a'' (organizedImages st2) = Some g2
          \<and> Some (img_a\<lparr>img_id := ''id-copy''\<rparr>) \<in> set g2)
   \<and> (\<exists>st2 g2. handleDeleteImage ''a'' ''id-copy''
                    (handleDuplicateImage ''a'' 0 ''id-copy'' two_groups) = Inr st2
          \<and> img_url img_a \<in> set (revoked st2)
          \<and> Map_get ''a'' (organizedImages st2) = Some g2
          \<and> Some img_a \<in> set g2)"
    unfolding Let_def by auto
  have e: "handleDeleteImage ''a'' ''id-a'' (handleDuplicateImage ''a'' 0 ''id-copy'' two_groups)
       = Inr (two_groups\<lparr>revoked := [''blob:a''],
                organizedImages := [(''a'', [Some (img_a\<lparr>img_id := ''id-copy''\<rparr>)]),
                                    (''b'', [Some img_b])]\<rparr>)"
    by (simp add: handleDeleteImage_def handleDuplicateImage_def two_groups_def initial_app_def
        img_a_def img_b_def Map_get_def Map_set_def array_at_def splice_in_def Let_def)
  from h1 h5 h6 t e show ?thesis by blast
qed

subsection \<open>Keys and ids that are not in the store\<close>

text \<open>
  The handlers that look the group up first return the store as it is when the group, the
  position or the id is missing; merging is a no-op on its own target, and leaves the
  groups as they are when only the source is missing.
\<close>

lemma Map_set_same: "Map_get k m = Some v \<Longrightarrow> Map_set k v m = m"
  by (induction m) (auto simp: Map_get_def Map_set_def)

lemma Map_delete_missing: "Map_get k m = None \<Longrightarrow> Map_delete k m = m"
  by (simp add: Map_get_def Map_delete_def map_of_eq_None_iff)

lemma handleDuplicateImage_missing:
  "Map_get sku (organizedImages st) = None \<or>
   (\<exists>g. Map_get sku (organizedImages st) = Some g \<and> array_at g i = None)
   \<Longrightarrow> handleDuplicateImage sku i uuid st = st"
  by (auto simp: handleDuplicateImage_def)

lemma handleDeleteImage_missing_group:
  "Map_get sku (organizedImages st) = None \<Longrightarrow> handleDeleteImage sku x st = Inr st"
  by (simp add: handleDeleteImage_def)

lemma find_id_missing:
  "list_all (\<lambda>x. x \<noteq> None) g \<Longrightarrow> Some x \<notin> set (map (map_option img_id) g)
   \<Longrightarrow> find_id x g = Inr None"
proof (induction g)
  case Nil
  then show ?case by simp
next
  case (Cons e g)
  then obtain img where "e = Some img" by auto
  with Cons show ?case by auto
qed

lemma handleDeleteImage_missing_id:
  assumes "Map_get sku (organizedImages st) = Some g" and "g \<noteq> []"
    and "list_all (\<lambda>x. x \<noteq> None) g" and "Some x \<notin> set (map (map_option img_id) g)"
  shows "handleDeleteImage sku x st = Inr st"
proof -
  from assms(4) have "filter (\<lambda>e. map_option img_id e \<noteq> Some x) g = g"
    by (force simp: filter_id_conv)
  with filter_not_id_defined [OF assms(3), of x] have "filter_not_id x g = Inr g" by simp
  with assms(1,2) find_id_missing [OF assms(3,4)] Map_set_same [OF assms(1)]
  show ?thesis by (simp add: handleDeleteImage_def)
qed

lemma handleImagePrefixChange_missing_group:
  "Map_get sku (organizedImages st) = None \<Longrightarrow> handleImagePrefixChange sku x p st = Inr st"
  by (simp add: handleImagePrefixChange_def)

lemma handleDeleteGroup_missing:
  "Map_get sku (organizedImages st) = None \<Longrightarrow> handleDeleteGroup c sku st = Inr st"
  by (simp add: handleDeleteGroup_def Map_delete_missing)

lemma handleGroupDrop_same_target:
  "draggedGroupSku st = Some t \<Longrightarrow> handleGroupDrop t st = st"
  by (simp add: handleGroupDrop_def)

lemma handleGroupDrop_missing_source:
  assumes "draggedGroupSku st = Some d" and "Map_get d (organizedImages st) = None"
    and "Map_get t (organizedImages st) = Some g"
  shows "organizedImages (handleGroupDrop t st) = organizedImages st"
proof (cases "d = [] \<or> d = t")
  case True
  with assms(1) show ?thesis by (auto simp: handleGroupDrop_def)
next
  case False
  with assms show ?thesis
    by (simp add: handleGroupDrop_def Let_def get_or_empty_def Map_set_same Map_delete_missing)
qed

text \<open>
  Claim C1 says that every operation called with a group key or an item id that is not in
  the store returns the store unchanged and never throws. \<open>handleDropReorder\<close> and
  \<open>handleGroupDrop\<close> have no such check. With a dragged item whose group is missing,
  \<open>handleDropReorder\<close> stores \<open>undefined\<close> in the target group (or in a new group under
  the missing key), after which deleting an item of that group throws; merging a group
  into a missing target moves the group under the new key.
\<close>

theorem missing_source_changes_store:
  "organizedImages two_groups = [(''a'', [Some img_a]), (''b'', [Some img_b])]
   \<and> organizedImages (handleDropReorder ''b'' 0 (two_groups\<lparr>draggedItem := Some (''gone'', 0)\<rparr>))
       = [(''a'', [Some img_a]), (''b'', [None, Some img_b])]
   \<and> organizedImages
         (handleDropReorder ''gone'' 0 (two_groups\<lparr>draggedItem := Some (''gone'', 0)\<rparr>))
       = [(''a'', [Some img_a]), (''b'', [Some img_b]), (''gone'', [None])]
   \<and> organizedImages (handleGroupDrop ''gone'' (two_groups\<lparr>draggedGroupSku := Some ''a''\<rparr>))
       = [(''b'', [Some img_b]), (''gone'', [Some img_a])]
   \<and> handleDeleteImage ''b'' ''id-b''
         (handleDropReorder ''b'' 0 (two_groups\<lparr>draggedItem := Some (''gone'', 0)\<rparr>))
       = Inl TypeError"
  by (simp add: two_groups_def initial_app_def handleDropReorder_def handleGroupDrop_def
      handleDeleteImage_def get_or_empty_def Map_get_def Map_set_def Map_delete_def
      array_at_def splice_in_def splice_out_def Let_def)

subsection \<open>Groups without items\<close>

text \<open>
  The handlers keep the store free of empty groups as long as the keys they are given
  are in the store; deleting the last item of a group removes its key.
\<close>

lemma no_empty_group_set:
  "no_empty_group m \<Longrightarrow> v \<noteq> [] \<Longrightarrow> no_empty_group (Map_set k v m)"
  by (induction m) (auto simp: no_empty_group_def Map_set_def)

lemma no_empty_group_delete: "no_empty_group m \<Longrightarrow> no_empty_group (Map_delete k m)"
  by (induction m) (auto simp: no_empty_group_def Map_delete_def)

lemma no_empty_group_get:
  "no_empty_group m \<Longrightarrow> Map_get k m = Some g \<Longrightarrow> g \<noteq> []"
  by (induction m) (auto simp: no_empty_group_def Map_get_def split: if_splits)

lemma splice_in_nonempty: "splice_in i x xs \<noteq> []"
  by (simp add: splice_in_def)

lemma handleDuplicateImage_no_empty_group:
  "no_empty_group (organizedImages st)
   \<Longrightarrow> no_empty_group (organizedImages (handleDuplicateImage sku i uuid st))"
  by (auto simp: handleDuplicateImage_def Let_def no_empty_group_set splice_in_nonempty
      split: option.splits)

lemma handleDeleteImage_no_empty_group:
  assumes "no_empty_group (organizedImages st)" and "handleDeleteImage sku x st = Inr st'"
  shows "no_empty_group (organizedImages st')"
proof (cases "Map_get sku (organizedImages st)")
  case None
  with assms show ?thesis by (simp add: handleDeleteImage_def)
next
  case (Some g)
  with assms(2) obtain r g2 where r: "find_id x g = Inr r" "filter_not_id x g = Inr g2"
    by (auto simp: handleDeleteImage_def Let_def split: sum.splits)
  with Some assms(2)
  have "organizedImages st' = (if 0 < length g2 then Map_set sku g2 (organizedImages st)
                               else Map_delete sku (organizedImages st))"
    by (auto simp: handleDeleteImage_def Let_def split: option.splits if_splits)
  with assms(1) show ?thesis
    by (simp add: no_empty_group_set no_empty_group_delete)
qed

lemma handleDeleteImage_last_item:
  assumes "Map_get sku (organizedImages st) = Some [Some img]"
  shows "\<exists>st'. handleDeleteImage sku (img_id img) st = Inr st'
      \<and> \<not> Map_has sku (organizedImages st') \<and> Map_get sku (organizedImages st') = None"
  using assms by (simp add: handleDeleteImage_def Let_def Map_has_get Map_get_delete)

lemma handleDeleteGroup_no_empty_group:
  assumes "no_empty_group (organizedImages st)" and "handleDeleteGroup c sku st = Inr st'"
  shows "no_empty_group (organizedImages st')"
  using assms
  by (auto simp: handleDeleteGroup_def Let_def no_empty_group_delete
      split: if_splits option.splits sum.splits)

lemma set_prefix_length: "set_prefix x p g = Inr g' \<Longrightarrow> length g' = length g"
proof (induction g arbitrary: g')
  case Nil
  then show ?case by simp
next
  case (Cons e g)
  then show ?case by (cases e) (auto split: sum.splits)
qed

lemma handleImagePrefixChange_no_empty_group:
  assumes "no_empty_group (organizedImages st)"
    and "handleImagePrefixChange sku x p st = Inr st'"
  shows "no_empty_group (organizedImages st')"
proof (cases "Map_get sku (organizedImages st)")
  case None
  with assms show ?thesis by (simp add: handleImagePrefixChange_def)
next
  case (Some g)
  with assms(2) obtain g' where g': "set_prefix x p g = Inr g'"
    "organizedImages st' = Map_set sku g' (organizedImages st)"
    by (auto simp: handleImagePrefixChange_def Let_def split: sum.splits)
  from no_empty_group_get [OF assms(1) Some] set_prefix_length [OF g'(1)] have "g' \<noteq> []"
    by auto
  with assms(1) g'(2) show ?thesis by (simp add: no_empty_group_set)
qed

lemma handleDropReorder_no_empty_group:
  assumes "no_empty_group (organizedImages st)"
  shows "no_empty_group (organizedImages (handleDropReorder targetGroup targetIndex st))"
proof (cases "draggedItem st")
  case None
  with assms show ?thesis by (simp add: handleDropReorder_def)
next
  case (Some d)
  obtain sourceGroup sourceIndex where d: "d = (sourceGroup, sourceIndex)" by (cases d)
  let ?m = "organizedImages st"
  let ?src = "splice_out sourceIndex (get_or_empty sourceGroup ?m)"
  show ?thesis
  proof (cases "sourceGroup = targetGroup")
    case True
    with Some d assms show ?thesis
      by (simp add: handleDropReorder_def Let_def no_empty_group_set splice_in_nonempty)
  next
    case False
    let ?m1 = "Map_set targetGroup
                 (splice_in targetIndex (array_at (get_or_empty sourceGroup ?m) sourceIndex)
                    (get_or_empty targetGroup ?m)) ?m"
    from assms have m1: "no_empty_group ?m1"
      by (simp add: no_empty_group_set splice_in_nonempty)
    show ?thesis
    proof (cases "?src = []")
      case True
      with Some d False m1 show ?thesis
        by (simp add: handleDropReorder_def Let_def no_empty_group_delete)
    next
      case nonempty: False
      with Some d False m1 show ?thesis
        by (simp add: handleDropReorder_def Let_def no_empty_group_set)
    qed
  qed
qed

lemma handleSkuChange_no_empty_group:
  assumes "no_empty_group (organizedImages st)"
    and "Map_has oldSku (organizedImages st) \<or> Map_has newSku (organizedImages st)"
  shows "no_empty_group (organizedImages (handleSkuChange oldSku newSku st))"
proof (cases "newSku = [] \<or> oldSku = newSku")
  case True
  with assms(1) show ?thesis by (auto simp: handleSkuChange_def)
next
  case False
  let ?m = "organizedImages st"
  let ?d = "Map_delete oldSku ?m"
  from assms(1) have d: "no_empty_group ?d" by (rule no_empty_group_delete)
  from False have hn: "Map_has newSku ?d = Map_has newSku ?m"
    by (auto simp add: Map_has_get Map_get_delete)
  show ?thesis
  proof (cases "Map_has newSku ?m")
    case True
    then obtain g where g: "Map_get newSku ?d = Some g"
      using hn by (auto simp: Map_has_get)
    from no_empty_group_get [OF d g] have "g \<noteq> []" .
    with g have "get_or_empty newSku ?d @ get_or_empty oldSku ?m \<noteq> []"
      by (simp add: get_or_empty_def)
    with False True hn d show ?thesis
      by (simp add: handleSkuChange_def Let_def no_empty_group_set)
  next
    case nohas: False
    with assms(2) obtain g where g: "Map_get oldSku ?m = Some g"
      by (auto simp: Map_has_get)
    from no_empty_group_get [OF assms(1) g] have "get_or_empty oldSku ?m \<noteq> []"
      using g by (simp add: get_or_empty_def)
    with False nohas hn d show ?thesis
      by (simp add: handleSkuChange_def Let_def no_empty_group_set)
  qed
qed

lemma handleGroupDrop_no_empty_group:
  assumes "no_empty_group (organizedImages st)"
    and "\<And>d. draggedGroupSku st = Some d \<Longrightarrow>
           Map_has d (organizedImages st) \<or> Map_has targetSku (organizedImages st)"
  shows "no_empty_group (organizedImages (handleGroupDrop targetSku st))"
proof (cases "draggedGroupSku st")
  case None
  with assms(1) show ?thesis by (simp add: handleGroupDrop_def)
next
  case (Some d)
  let ?m = "organizedImages st"
  show ?thesis
  proof (cases "d = [] \<or> d = targetSku")
    case True
    with Some assms(1) show ?thesis by (auto simp: handleGroupDrop_def)
  next
    case False
    from assms(2) [OF Some]
    have "get_or_empty targetSku ?m @ get_or_empty d ?m \<noteq> []"
      using no_empty_group_get [OF assms(1)]
      by (auto simp: Map_has_get get_or_empty_def)
    with Some False assms(1) show ?thesis
      by (simp add: handleGroupDrop_def Let_def no_empty_group_set no_empty_group_delete)
  qed
qed

lemma organize_files_no_empty_group: "no_empty_group (organize_files u c fs)"
proof -
  have "no_empty_group m \<Longrightarrow> no_empty_group (foldl (add_file u c) m l)" for m l
    by (induction l arbitrary: m) (simp_all add: add_file_def Let_def no_empty_group_set)
  then show ?thesis
    unfolding organize_files_def by (simp add: no_empty_group_def)
qed

text \<open>
  Claim C2 says that after any operation every key of the store has at least one item.
  \<open>handleSkuChange\<close> called with an old key that is missing and a new key that is unused,
  and \<open>handleGroupDrop\<close> called with a source and a target that are both missing, add a
  key with no item.
\<close>

theorem missing_keys_make_empty_group:
  "no_empty_group (organizedImages two_groups)
   \<and> organizedImages (handleSkuChange ''gone'' ''x'' two_groups)
       = [(''a'', [Some img_a]), (''b'', [Some img_b]), (''x'', [])]
   \<and> \<not> no_empty_group (organizedImages (handleSkuChange ''gone'' ''x'' two_groups))
   \<and> organizedImages (handleGroupDrop ''x'' (two_groups\<lparr>draggedGroupSku := Some ''gone''\<rparr>))
       = [(''a'', [Some img_a]), (''b'', [Some img_b]), (''x'', [])]
   \<and> \<not> no_empty_group
         (organizedImages (handleGroupDrop ''x'' (two_groups\<lparr>draggedGroupSku := Some ''gone''\<rparr>)))"
  by (simp add: two_groups_def initial_app_def handleSkuChange_def handleGroupDrop_def
      no_empty_group_def get_or_empty_def Map_get_def Map_has_def Map_set_def Map_delete_def
      Let_def)

section \<open>Properties of the exported file names\<close>

lemma str_trim_decompose:
  "\<exists>l r. s = l @ str_trim s @ r \<and> list_all is_space l \<and> list_all is_space r
     \<and> (str_trim s = [] \<or> (\<not> is_space (hd (str_trim s)) \<and> \<not> is_space (last (str_trim s))))"
proof -
  let ?l = "takeWhile is_space s"
  let ?m = "dropWhile is_space s"
  let ?r = "rev (takeWhile is_space (rev ?m))"
  have t: "str_trim s = rev (dropWhile is_space (rev ?m))"
    by (simp add: str_trim_def)
  have m: "?m = str_trim s @ ?r"
    unfolding t by (metis rev_append rev_rev_ident takeWhile_dropWhile_id)
  have s: "s = ?l @ str_trim s @ ?r"
    using m by (metis takeWhile_dropWhile_id)
  have l: "list_all is_space ?l"
    by (simp add: list_all_iff) (metis set_takeWhileD)
  have r: "list_all is_space ?r"
    by (simp add: list_all_iff) (metis set_takeWhileD)
  have edge: "\<not> is_space (hd (str_trim s)) \<and> \<not> is_space (last (str_trim s))"
    if ne: "str_trim s \<noteq> []"
  proof -
    from ne t have d: "dropWhile is_space (rev ?m) \<noteq> []" by simp
    then have "\<not> is_space (hd (dropWhile is_space (rev ?m)))" by (rule hd_dropWhile)
    with d t have la: "\<not> is_space (last (str_trim s))" by (simp add: last_rev)
    from ne m have "?m \<noteq> []" by (metis Nil_is_append_conv)
    then have "\<not> is_space (hd ?m)" by (rule hd_dropWhile)
    moreover from ne m have "hd ?m = hd (str_trim s)" by (metis hd_append2)
    ultimately show ?thesis using la by simp
  qed
  from s l r edge show ?thesis by blast
qed






end
